theory Spec2Isabelle
  imports Complex_Main
begin

section \<open>Value model (redistoon.h)\<close>

text \<open>
  The tagged union \<^verbatim>\<open>ToonValue\<close>. Arrays of pointers with a separate length field
  become lists; an object is an association list (order and duplicate keys matter).
  A tabular array keeps its headers and its rows; \<^verbatim>\<open>num_headers\<close> is the length
  of the header list and \<^verbatim>\<open>num_rows\<close> the length of the row list.
  The \<^verbatim>\<open>double\<close> payload of a number is modelled by the rational value it denotes.
  C strings are char lists; they hold no NUL byte.
\<close>

datatype ToonValue =
    TOON_NULL
  | TOON_BOOLEAN bool
  | TOON_NUMBER rat
  | TOON_STRING string
  | TOON_ARRAY "ToonValue list"
  | TOON_OBJECT "(string \<times> ToonValue) list"
  | TOON_TABULAR_ARRAY "string list" "ToonValue list list"

type_synonym ToonObjectEntry = "string \<times> ToonValue"

section \<open>Character classes and atoi (C library, "C" locale)\<close>

definition isspace :: "char \<Rightarrow> bool" where
  "isspace c = (c = CHR '' '' \<or> c = CHR 0x09 \<or> c = CHR 0x0A \<or> c = CHR 0x0B
                \<or> c = CHR 0x0C \<or> c = CHR 0x0D)"

definition isdigit :: "char \<Rightarrow> bool" where
  "isdigit c = (48 \<le> (of_char c :: nat) \<and> (of_char c :: nat) \<le> 57)"

definition digit_value :: "char \<Rightarrow> int" where
  "digit_value c = int (of_char c) - 48"

fun atoi_digits :: "int \<Rightarrow> string \<Rightarrow> int" where
  "atoi_digits acc [] = acc"
| "atoi_digits acc (c # cs) =
     (if isdigit c then atoi_digits (acc * 10 + digit_value c) cs else acc)"

text \<open>
  \<^verbatim>\<open>atoi (s)\<close> is \<^verbatim>\<open>(int) strtol (s, NULL, 10)\<close>: skip white space, take an
  optional sign, then the decimal digits. \<^verbatim>\<open>strtol\<close> saturates at the range of
  \<^verbatim>\<open>long\<close> (64 bits), and the conversion to \<^verbatim>\<open>int\<close> keeps the low 32 bits
  in two's complement, so \<open>4294967296\<close> is read as 0. (C leaves \<^verbatim>\<open>atoi\<close> undefined
  outside the range of \<^verbatim>\<open>int\<close>; this is what glibc does on x86-64.)
\<close>

definition to_int32 :: "int \<Rightarrow> int" where
  "to_int32 x = (x + 2 ^ 31) mod 2 ^ 32 - 2 ^ 31"

definition strtol :: "string \<Rightarrow> int" where
  "strtol s =
     (let x = (case dropWhile isspace s of
                 [] \<Rightarrow> 0
               | c # cs \<Rightarrow>
                   if c = CHR ''-'' then - atoi_digits 0 cs
                   else if c = CHR ''+'' then atoi_digits 0 cs
                   else atoi_digits 0 (c # cs))
      in max (- (2 ^ 63)) (min (2 ^ 63 - 1) x))"

definition atoi :: "string \<Rightarrow> int" where
  "atoi s = to_int32 (strtol s)"

text \<open>
  A bounded copy loop, as in
  \<^verbatim>\<open>while (*p && !stop(*p) && i < n) buf[i++] = *p++;\<close>
  It yields the bytes copied and the cursor after them.
\<close>

fun scan_segment :: "(char \<Rightarrow> bool) \<Rightarrow> nat \<Rightarrow> string \<Rightarrow> string \<times> string" where
  "scan_segment stop n [] = ([], [])"
| "scan_segment stop n (c # p) =
     (if c = CHR 0x00 \<or> stop c \<or> n = 0 then ([], c # p)
      else (c # fst (scan_segment stop (n - 1) p), snd (scan_segment stop (n - 1) p)))"

lemma scan_segment_length: "length (snd (scan_segment stop n p)) \<le> length p"
  by (induction p arbitrary: n) (auto intro: le_SucI)

section \<open>Number text (C library: printf and strtod)\<close>

text \<open>\<^verbatim>\<open>%zu\<close> and \<^verbatim>\<open>%ld\<close>: decimal digits, with a minus sign for a negative value.\<close>

fun show_nat :: "nat \<Rightarrow> string" where
  "show_nat n =
     (if n < 10 then [char_of (48 + n)]
      else show_nat (n div 10) @ [char_of (48 + n mod 10)])"

declare show_nat.simps [simp del]

definition show_int :: "int \<Rightarrow> string" where
  "show_int i = (if i < 0 then CHR ''-'' # show_nat (nat (- i)) else show_nat (nat i))"

text \<open>
  \<^verbatim>\<open>%.10g\<close> for a non-zero value: ten significant digits, rounded to nearest (ties to
  even), in fixed notation when the decimal exponent lies in \<open>[-4, 10)\<close> and in
  exponent notation otherwise, with trailing zeros removed. \<open>decimal_exponent\<close> is the
  exponent of the leading digit; its search is bounded by the range of a double.
\<close>

fun decimal_exponent :: "nat \<Rightarrow> rat \<Rightarrow> int" where
  "decimal_exponent 0 a = 0"
| "decimal_exponent (Suc k) a =
     (if a \<ge> 10 then decimal_exponent k (a / 10) + 1
      else if a < 1 then decimal_exponent k (a * 10) - 1
      else 0)"

definition scale10 :: "rat \<Rightarrow> int \<Rightarrow> rat" where
  "scale10 a e = (if e \<ge> 0 then a * 10 ^ nat e else a / 10 ^ nat (- e))"

definition round_half_even :: "rat \<Rightarrow> int" where
  "round_half_even r =
     (let m = \<lfloor>r\<rfloor>; f = r - of_int m
      in if f > 1 / 2 \<or> (f = 1 / 2 \<and> odd m) then m + 1 else m)"

definition strip_zeros :: "string \<Rightarrow> string" where
  "strip_zeros ds = rev (dropWhile (\<lambda>c. c = CHR ''0'') (rev ds))"

definition format_g10 :: "rat \<Rightarrow> string" where
  "format_g10 q =
     (let a = \<bar>q\<bar>;
          x0 = decimal_exponent 400 a;
          m0 = round_half_even (scale10 a (9 - x0));
          x = (if m0 \<ge> 10 ^ 10 then x0 + 1 else x0);
          m = (if m0 \<ge> 10 ^ 10 then 10 ^ 9 else m0);
          ds = show_nat (nat m);
          body =
            (if x < - 4 \<or> x \<ge> 10 then
               (let frac = strip_zeros (tl ds)
                in hd ds # (if frac = [] then [] else CHR ''.'' # frac)
                   @ [CHR ''e'', if x < 0 then CHR ''-'' else CHR ''+'']
                   @ (if \<bar>x\<bar> < 10 then CHR ''0'' # show_nat (nat \<bar>x\<bar>) else show_nat (nat \<bar>x\<bar>)))
             else if x \<ge> 0 then
               (let frac = strip_zeros (drop (nat x + 1) ds)
                in take (nat x + 1) ds @ (if frac = [] then [] else CHR ''.'' # frac))
             else ''0.'' @ replicate (nat (- x - 1)) (CHR ''0'') @ strip_zeros ds)
      in if q < 0 then CHR ''-'' # body else body)"

text \<open>
  The number branch of the encoder and of \<^verbatim>\<open>toon_to_json\<close>:
  \<^verbatim>\<open>if (num == (long)num) sprintf("%ld", (long)num); else sprintf("%.10g", num);\<close>
\<close>

definition format_number :: "rat \<Rightarrow> string" where
  "format_number num =
     (if of_int \<lfloor>num\<rfloor> = num \<and> - (2 ^ 63) \<le> \<lfloor>num\<rfloor> \<and> \<lfloor>num\<rfloor> < 2 ^ 63
      then show_int \<lfloor>num\<rfloor> else format_g10 num)"

text \<open>
  \<^verbatim>\<open>strtod\<close> returns the value of the longest prefix that is a number and the rest of
  the string (\<^verbatim>\<open>endptr\<close>); with no conversion the value is 0 and the rest is the whole
  string. The subject is optional white space, an optional sign, and then a decimal
  number with optional exponent, a hexadecimal number with optional binary exponent,
  \<^verbatim>\<open>inf\<close>, \<^verbatim>\<open>infinity\<close> or \<^verbatim>\<open>nan\<close> (letters in either case). Infinity and NaN
  are not rationals: the model gives 0 for them, and only their end pointer is used.
\<close>

definition tolower :: "char \<Rightarrow> char" where
  "tolower c = (if 65 \<le> (of_char c :: nat) \<and> (of_char c :: nat) \<le> 90
                then char_of ((of_char c :: nat) + 32) else c)"

definition has_prefix_ci :: "string \<Rightarrow> string \<Rightarrow> bool" where
  "has_prefix_ci p s = (map tolower (take (length p) s) = p)"

definition isxdigit :: "char \<Rightarrow> bool" where
  "isxdigit c = (isdigit c \<or> (97 \<le> (of_char (tolower c) :: nat) \<and> (of_char (tolower c) :: nat) \<le> 102))"

definition xdigit_value :: "char \<Rightarrow> int" where
  "xdigit_value c = (if isdigit c then digit_value c else int (of_char (tolower c)) - 87)"

definition is_nan_char :: "char \<Rightarrow> bool" where
  "is_nan_char c = (isdigit c \<or> c = CHR ''_''
                 \<or> (97 \<le> (of_char (tolower c) :: nat) \<and> (of_char (tolower c) :: nat) \<le> 122))"

definition digits_value :: "string \<Rightarrow> int" where
  "digits_value ds = foldl (\<lambda>acc c. acc * 10 + digit_value c) 0 ds"

definition xdigits_value :: "string \<Rightarrow> int" where
  "xdigits_value ds = foldl (\<lambda>acc c. acc * 16 + xdigit_value c) 0 ds"

definition strtod_exponent :: "char \<Rightarrow> string \<Rightarrow> int \<times> string" where
  "strtod_exponent e s =
     (case s of
        [] \<Rightarrow> (0, s)
      | c # r \<Rightarrow>
          if tolower c \<noteq> e then (0, s)
          else (let neg = (case r of [] \<Rightarrow> False | d # _ \<Rightarrow> d = CHR ''-'');
                    r' = (case r of [] \<Rightarrow> r
                          | d # t \<Rightarrow> if d = CHR ''-'' \<or> d = CHR ''+'' then t else r);
                    ds = takeWhile isdigit r'
                in if ds = [] then (0, s)
                   else (if neg then - digits_value ds else digits_value ds,
                         dropWhile isdigit r')))"

definition strtod_decimal :: "string \<Rightarrow> (rat \<times> string) option" where
  "strtod_decimal s =
     (let ip = takeWhile isdigit s;
          r1 = dropWhile isdigit s;
          dot = (case r1 of [] \<Rightarrow> False | c # _ \<Rightarrow> c = CHR ''.'');
          fp = (if dot then takeWhile isdigit (tl r1) else []);
          r2 = (if dot then dropWhile isdigit (tl r1) else r1)
      in if ip = [] \<and> fp = [] then None
         else (let (e, r3) = strtod_exponent (CHR ''e'') r2
               in Some (scale10 (of_int (digits_value (ip @ fp))) (e - int (length fp)), r3)))"

definition scale2 :: "rat \<Rightarrow> int \<Rightarrow> rat" where
  "scale2 a e = (if e \<ge> 0 then a * 2 ^ nat e else a / 2 ^ nat (- e))"

definition strtod_hex :: "string \<Rightarrow> (rat \<times> string) option" where
  "strtod_hex s =
     (let ip = takeWhile isxdigit s;
          r1 = dropWhile isxdigit s;
          dot = (case r1 of [] \<Rightarrow> False | c # _ \<Rightarrow> c = CHR ''.'');
          fp = (if dot then takeWhile isxdigit (tl r1) else []);
          r2 = (if dot then dropWhile isxdigit (tl r1) else r1)
      in if ip = [] \<and> fp = [] then None
         else (let (e, r3) = strtod_exponent (CHR ''p'') r2
               in Some (scale2 (of_int (xdigits_value (ip @ fp))) (e - 4 * int (length fp)), r3)))"

definition strtod_nan_tail :: "string \<Rightarrow> string" where
  "strtod_nan_tail s =
     (case s of
        [] \<Rightarrow> s
      | c # r \<Rightarrow>
          if c \<noteq> CHR ''('' then s
          else (case dropWhile is_nan_char r of
                  [] \<Rightarrow> s
                | d # t \<Rightarrow> if d = CHR '')'' then t else s))"

definition strtod_body :: "string \<Rightarrow> (rat \<times> string) option" where
  "strtod_body s =
     (if has_prefix_ci ''infinity'' s then Some (0, drop 8 s)
      else if has_prefix_ci ''inf'' s then Some (0, drop 3 s)
      else if has_prefix_ci ''nan'' s then Some (0, strtod_nan_tail (drop 3 s))
      else if has_prefix_ci ''0x'' s \<and> strtod_hex (drop 2 s) \<noteq> None then strtod_hex (drop 2 s)
      else strtod_decimal s)"

definition strtod :: "string \<Rightarrow> rat \<times> string" where
  "strtod nptr =
     (let s = dropWhile isspace nptr;
          neg = (case s of [] \<Rightarrow> False | c # _ \<Rightarrow> c = CHR ''-'');
          s' = (case s of [] \<Rightarrow> s
                | c # r \<Rightarrow> if c = CHR ''-'' \<or> c = CHR ''+'' then r else s)
      in case strtod_body s' of
           None \<Rightarrow> (0, nptr)
         | Some (v, rest) \<Rightarrow> (if neg then - v else v, rest))"

section \<open>Encoder (toon_encoder.c)\<close>

text \<open>
  Plain \<^verbatim>\<open>char\<close> is a signed byte on the x86-64 targets the module is built for:
  the bytes 0x80 to 0xFF are negative numbers.
\<close>

definition char_value :: "char \<Rightarrow> int" where
  "char_value c = (if (of_char c :: nat) \<ge> 128 then int (of_char c) - 256 else int (of_char c))"

definition is_structural :: "char \<Rightarrow> bool" where
  "is_structural c =
     (c = CHR '','' \<or> c = CHR '':'' \<or> c = CHR 0x0A \<or> c = CHR 0x0D
      \<or> c = CHR ''{'' \<or> c = CHR ''}'' \<or> c = CHR ''['' \<or> c = CHR '']''
      \<or> char_value c < 32)"

fun has_structural :: "string \<Rightarrow> bool" where
  "has_structural [] = False"
| "has_structural (c # p) = (if is_structural c then True else has_structural p)"

definition needs_quoting :: "string \<Rightarrow> bool" where
  "needs_quoting str =
     (if str = [] then True
      else if str = ''null'' \<or> str = ''true'' \<or> str = ''false'' then True
      else if snd (strtod str) = [] then True
      else if isspace (hd str) \<or> isspace (last str) then True
      else has_structural str)"

fun escape_chars :: "string \<Rightarrow> string" where
  "escape_chars [] = []"
| "escape_chars (c # s) =
     (if c = CHR 0x22 then CHR 0x5C # CHR 0x22 # escape_chars s
      else if c = CHR 0x5C then CHR 0x5C # CHR 0x5C # escape_chars s
      else if c = CHR 0x0A then CHR 0x5C # CHR ''n'' # escape_chars s
      else if c = CHR 0x0D then CHR 0x5C # CHR ''r'' # escape_chars s
      else if c = CHR 0x09 then CHR 0x5C # CHR ''t'' # escape_chars s
      else c # escape_chars s)"

definition escape_string :: "string \<Rightarrow> string" where
  "escape_string str = CHR 0x22 # escape_chars str @ [CHR 0x22]"

definition make_indent :: "nat \<Rightarrow> string" where
  "make_indent level = replicate (level * 2) (CHR '' '')"

text \<open>Items written one after the other with a comma before every item but the first.\<close>

fun comma_join :: "string list \<Rightarrow> string" where
  "comma_join [] = []"
| "comma_join [x] = x"
| "comma_join (x # y # ys) = x @ CHR '','' # comma_join (y # ys)"

definition is_composite :: "ToonValue \<Rightarrow> bool" where
  "is_composite v =
     (case v of TOON_OBJECT _ \<Rightarrow> True | TOON_ARRAY _ \<Rightarrow> True
      | TOON_TABULAR_ARRAY _ _ \<Rightarrow> True | _ \<Rightarrow> False)"

text \<open>
  The entry loop of \<^verbatim>\<open>encode_object\<close>, given the encoded values; \<open>first\<close> is
  \<^verbatim>\<open>i == 0\<close>.
\<close>

fun object_lines :: "bool \<Rightarrow> string \<Rightarrow> bool \<Rightarrow> (string \<times> string) list \<Rightarrow> string" where
  "object_lines inline_mode indent first [] = []"
| "object_lines inline_mode indent first ((key, val) # es) =
     (if first then [] else if inline_mode then '', '' else indent)
     @ key @ '': '' @ val @ (if inline_mode then [] else [CHR 0x0A])
     @ object_lines inline_mode indent False es"

text \<open>
  The encoder returns a C string: the bytes it wrote into its buffer up to the first NUL.
  \<^verbatim>\<open>encode_object\<close> ends every line with \<^verbatim>\<open>*p++ = '\n'\<close> and returns without
  writing a NUL after it (an object without entries writes nothing at all), and
  \<^verbatim>\<open>encode_tabular_array\<close> does the same after every row. The string they return
  runs on through the bytes the fresh \<^verbatim>\<open>malloc\<close> block held before, up to the first NUL
  among them. These bytes are a parameter of the model: \<open>stale loc\<close> is what the buffer of
  the node at position \<open>loc\<close> (the child indices from the value encoded; row and column
  for a cell) holds after the written text. Buffer capacities (4096 and 65536 bytes) are
  not modelled. Every row of a tabular array holds \<^verbatim>\<open>num_headers\<close> cells.
\<close>

type_synonym stale_bytes = "nat list \<Rightarrow> string"

definition child_stale :: "stale_bytes \<Rightarrow> nat \<Rightarrow> stale_bytes" where
  "child_stale stale i = (\<lambda>loc. stale (i # loc))"

definition stale_tail :: "stale_bytes \<Rightarrow> string" where
  "stale_tail stale = takeWhile (\<lambda>c. c \<noteq> CHR 0x00) (stale [])"

lemma size_cell_less:
  "row \<in> set rows \<Longrightarrow> cell \<in> set (take n row) \<Longrightarrow>
     size cell < Suc (size_list (size_list size) rows)"
proof -
  assume r: "row \<in> set rows" and c: "cell \<in> set (take n row)"
  from c have "cell \<in> set row" by (rule in_set_takeD)
  then have "size cell \<le> size_list size row" by (rule size_list_estimation') simp
  also from r have "\<dots> \<le> size_list (size_list size) rows" by (rule size_list_estimation') simp
  finally show ?thesis by simp
qed

lemma size_entry_less:
  "e \<in> set entries \<Longrightarrow> size (snd e) < Suc (size_list (size_prod (\<lambda>x. 0) size) entries)"
proof -
  assume e: "e \<in> set entries"
  have "size (snd e) \<le> size_prod (\<lambda>x. 0) size e" by (cases e) simp
  with e have "size (snd e) \<le> size_list (size_prod (\<lambda>x. 0) size) entries"
    by (rule size_list_estimation')
  then show ?thesis by simp
qed

lemma in_enumerate_set: "(i, x) \<in> set (enumerate n xs) \<Longrightarrow> x \<in> set xs"
  by (auto simp: in_set_enumerate_eq)

function (sequential) encode_value :: "stale_bytes \<Rightarrow> ToonValue \<Rightarrow> nat \<Rightarrow> bool \<Rightarrow> string" where
  "encode_value stale TOON_NULL indent_level inline_mode = ''null''"
| "encode_value stale (TOON_BOOLEAN b) indent_level inline_mode = (if b then ''true'' else ''false'')"
| "encode_value stale (TOON_NUMBER num) indent_level inline_mode = format_number num"
| "encode_value stale (TOON_STRING str) indent_level inline_mode =
     (if needs_quoting str then escape_string str else str)"
| "encode_value stale (TOON_ARRAY elements) indent_level inline_mode =
     (if \<not> list_ex is_composite elements then
        ''['' @ show_nat (length elements) @ '']: ''
        @ comma_join (map (\<lambda>(i, e). encode_value (child_stale stale i) e 0 True)
                          (enumerate 0 elements))
      else
        ''['' @ show_nat (length elements) @ '']:'' @ [CHR 0x0A]
        @ concat (map (\<lambda>(i, e). make_indent (indent_level + 1) @ ''- ''
                           @ encode_value (child_stale stale i) e (indent_level + 1) False
                           @ [CHR 0x0A])
                      (enumerate 0 elements)))"
| "encode_value stale (TOON_OBJECT entries) indent_level inline_mode =
     object_lines inline_mode (make_indent indent_level) True
       (map (\<lambda>(i, e). (fst e, encode_value (child_stale stale i) (snd e) (indent_level + 1) False))
            (enumerate 0 entries))
     @ (if inline_mode \<and> entries \<noteq> [] then [] else stale_tail stale)"
| "encode_value stale (TOON_TABULAR_ARRAY headers rows) indent_level inline_mode =
     ''['' @ show_nat (length rows) @ '',]{'' @ comma_join headers @ ''}:'' @ [CHR 0x0A]
     @ concat (map (\<lambda>(r, row). make_indent indent_level
                            @ comma_join (map (\<lambda>(c, cell). encode_value
                                                   (child_stale (child_stale stale r) c) cell 0 True)
                                              (enumerate 0 (take (length headers) row)))
                            @ [CHR 0x0A])
                   (enumerate 0 rows))
     @ (if rows = [] then [] else stale_tail stale)"
  by pat_completeness auto
termination
proof (relation "measure (\<lambda>(stale, v, indent_level, inline_mode). size v)")
  fix stale :: stale_bytes and headers :: "string list" and rows :: "ToonValue list list"
    and indent_level :: nat and inline_mode :: bool and r row c cell x y
  assume "x \<in> set (enumerate 0 rows)" and "(r, row) = x"
    and "y \<in> set (enumerate 0 (take (length headers) row))" and "(c, cell) = y"
  then have "row \<in> set rows" and "cell \<in> set (take (length headers) row)"
    by (auto dest: in_enumerate_set)
  then show "((child_stale (child_stale stale r) c, cell, 0, True),
              (stale, TOON_TABULAR_ARRAY headers rows, indent_level, inline_mode))
               \<in> measure (\<lambda>(stale, v, indent_level, inline_mode). size v)"
    using size_cell_less [of row rows cell "length headers"] by simp
next
  fix stale :: stale_bytes and entries :: "ToonObjectEntry list"
    and indent_level :: nat and inline_mode :: bool and i e x
  assume "x \<in> set (enumerate 0 entries)" and "(i, e) = x"
  then have "e \<in> set entries" by (auto dest: in_enumerate_set)
  then have "size (snd e) < Suc (size_list (size_prod (\<lambda>x. 0) size) entries)"
    by (rule size_entry_less)
  then show "((child_stale stale i, snd e, indent_level + 1, False),
              (stale, TOON_OBJECT entries, indent_level, inline_mode))
               \<in> measure (\<lambda>(stale, v, indent_level, inline_mode). size v)"
    by simp
qed (auto simp: less_Suc_eq_le dest!: in_enumerate_set intro: size_list_estimation')

definition toon_encode :: "stale_bytes \<Rightarrow> ToonValue \<Rightarrow> nat \<Rightarrow> string" where
  "toon_encode stale v indent_level = encode_value stale v indent_level False"

section \<open>Decoder (toon_decoder.c)\<close>

text \<open>
  The parser state is the cursor, modelled by the text that remains; line and column only
  feed the error message and are left out, as is the message. \<^verbatim>\<open>set_error\<close> latches
  the first error and \<^verbatim>\<open>toon_decode\<close> then returns NULL whatever was parsed after
  it: the model stops at the first error. Nested arrays recurse; the model bounds the
  nesting depth by a counter, and \<open>FuelExhausted\<close> says the counter ran out (the C code
  has no such result). \<open>MemoryFault\<close> is a store through a null pointer.
\<close>

datatype error = SyntaxError | FuelExhausted | MemoryFault

definition peek :: "string \<Rightarrow> char" where
  "peek p = (case p of [] \<Rightarrow> CHR 0x00 | c # _ \<Rightarrow> c)"

text \<open>The cursor after \<^verbatim>\<open>consume\<close>: it does not move at the end of the text.\<close>

definition advance :: "string \<Rightarrow> string" where
  "advance p = (case p of [] \<Rightarrow> [] | c # r \<Rightarrow> if c = CHR 0x00 then p else r)"

definition skip_whitespace :: "string \<Rightarrow> string" where
  "skip_whitespace p = dropWhile isspace p"

text \<open>\<^verbatim>\<open>if (consume(p) != c) { set_error(...); return NULL; }\<close>\<close>

definition expect :: "char \<Rightarrow> string \<Rightarrow> error + string" where
  "expect c p = (if peek p = c then Inr (advance p) else Inl SyntaxError)"

definition unescape :: "char \<Rightarrow> char option" where
  "unescape c =
     (if c = CHR ''n'' then Some (CHR 0x0A)
      else if c = CHR ''r'' then Some (CHR 0x0D)
      else if c = CHR ''t'' then Some (CHR 0x09)
      else if c = CHR 0x22 then Some (CHR 0x22)
      else if c = CHR 0x5C then Some (CHR 0x5C)
      else None)"

fun quoted_chars :: "string \<Rightarrow> error + (string \<times> string)" where
  "quoted_chars [] = Inr ([], [])"
| "quoted_chars (c # p) =
     (if c = CHR 0x22 \<or> c = CHR 0x00 then Inr ([], c # p)
      else if c = CHR 0x5C then
        (case unescape (peek p) of
           None \<Rightarrow> Inl SyntaxError
         | Some c' \<Rightarrow>
             (case quoted_chars (tl p) of
                Inl e \<Rightarrow> Inl e
              | Inr (str, rest) \<Rightarrow> Inr (c' # str, rest)))
      else
        (case quoted_chars p of
           Inl e \<Rightarrow> Inl e
         | Inr (str, rest) \<Rightarrow> Inr (c # str, rest)))"

text \<open>The buffer holds 4095 bytes; what does not fit is read and dropped.\<close>

definition parse_quoted_string :: "string \<Rightarrow> error + (string \<times> string)" where
  "parse_quoted_string p =
     (case expect (CHR 0x22) p of
        Inl e \<Rightarrow> Inl e
      | Inr p1 \<Rightarrow>
          (case quoted_chars p1 of
             Inl e \<Rightarrow> Inl e
           | Inr (str, p2) \<Rightarrow>
               (case expect (CHR 0x22) p2 of
                  Inl e \<Rightarrow> Inl e
                | Inr p3 \<Rightarrow> Inr (take 4095 str, p3))))"

definition trim_right :: "string \<Rightarrow> string" where
  "trim_right str = rev (dropWhile isspace (rev str))"

definition parse_unquoted_string :: "string \<Rightarrow> string \<Rightarrow> string \<times> string" where
  "parse_unquoted_string p delimiters =
     (let go = (\<lambda>c. c \<noteq> CHR 0x00 \<and> c \<notin> set delimiters)
      in (trim_right (take 4095 (takeWhile go p)), dropWhile go p))"

definition parse_number :: "string \<Rightarrow> ToonValue \<times> string" where
  "parse_number p =
     (let minus = (peek p = CHR ''-'');
          p1 = (if minus then advance p else p);
          remaining = (if minus then 62 else 63 :: nat);
          digits = scan_segment (\<lambda>c. \<not> (isdigit c \<or> c = CHR ''.'')) remaining p1;
          buffer = (if minus then ''-'' else []) @ fst digits
      in (TOON_NUMBER (fst (strtod buffer)), snd digits))"

definition keyword_value :: "string \<Rightarrow> ToonValue" where
  "keyword_value str =
     (if str = ''null'' then TOON_NULL
      else if str = ''true'' then TOON_BOOLEAN True
      else if str = ''false'' then TOON_BOOLEAN False
      else TOON_STRING str)"

text \<open>
  The count of an array header, \<^verbatim>\<open>size_t n = atoi (count_buf)\<close>, and the allocation
  \<^verbatim>\<open>malloc (sizeof (...) * n)\<close> that follows. A count that \<^verbatim>\<open>atoi\<close> turns
  negative becomes a size of at least \<open>2 ^ 64 - 2 ^ 31\<close>; \<^verbatim>\<open>malloc\<close> returns NULL for
  it and the first pass of the loop stores through that pointer. That \<^verbatim>\<open>malloc\<close> may
  fail for lack of memory is not modelled.
\<close>

definition alloc_count :: "string \<Rightarrow> error + nat" where
  "alloc_count count_buf =
     (let n = atoi count_buf in if n < 0 then Inl MemoryFault else Inr (nat n))"

text \<open>One cell of a tabular row.\<close>

definition parse_cell :: "string \<Rightarrow> error + (ToonValue \<times> string)" where
  "parse_cell p =
     (if peek p = CHR 0x22 then
        (case parse_quoted_string p of
           Inl e \<Rightarrow> Inl e
         | Inr (str, rest) \<Rightarrow> Inr (TOON_STRING str, rest))
      else if isdigit (peek p) \<or> peek p = CHR ''-'' then Inr (parse_number p)
      else (let r = parse_unquoted_string p [CHR '','', CHR 0x0A, CHR 0x0D]
            in Inr (keyword_value (fst r), snd r)))"

text \<open>The column loop; the counter is the number of columns still to read.\<close>

fun parse_cells :: "nat \<Rightarrow> string \<Rightarrow> error + (ToonValue list \<times> string)" where
  "parse_cells 0 p = Inr ([], p)"
| "parse_cells (Suc k) p =
     (case parse_cell (skip_whitespace p) of
        Inl e \<Rightarrow> Inl e
      | Inr (v, p1) \<Rightarrow>
          (let p2 = skip_whitespace p1;
               p3 = (if k > 0 \<and> peek p2 = CHR '','' then advance p2 else p2)
           in case parse_cells k p3 of
                Inl e \<Rightarrow> Inl e
              | Inr (vs, rest) \<Rightarrow> Inr (v # vs, rest)))"

fun parse_rows :: "nat \<Rightarrow> nat \<Rightarrow> string \<Rightarrow> error + (ToonValue list list \<times> string)" where
  "parse_rows 0 num_headers p = Inr ([], p)"
| "parse_rows (Suc n) num_headers p =
     (case parse_cells num_headers (skip_whitespace p) of
        Inl e \<Rightarrow> Inl e
      | Inr (row, p1) \<Rightarrow>
          (case parse_rows n num_headers (skip_whitespace p1) of
             Inl e \<Rightarrow> Inl e
           | Inr (rows, rest) \<Rightarrow> Inr (row # rows, rest)))"

text \<open>The header loop stops at a closing brace or after 256 headers.\<close>

fun parse_headers :: "nat \<Rightarrow> string \<Rightarrow> string list \<times> string" where
  "parse_headers 0 p = ([], p)"
| "parse_headers (Suc k) p =
     (if peek p = CHR ''}'' then ([], p)
      else
        (let p1 = skip_whitespace p;
             header_buf = scan_segment (\<lambda>c. c = CHR '','' \<or> c = CHR ''}'') 255 p1;
             header = trim_right (dropWhile isspace (fst header_buf));
             p2 = skip_whitespace (snd header_buf);
             p3 = (if peek p2 = CHR '','' then advance p2 else p2);
             r = parse_headers k p3
         in (header # fst r, snd r)))"

definition parse_tabular_array :: "string \<Rightarrow> error + (ToonValue \<times> string)" where
  "parse_tabular_array p =
     (case expect (CHR ''['') p of Inl e \<Rightarrow> Inl e | Inr p1 \<Rightarrow>
        (let count_buf = scan_segment (\<lambda>c. \<not> isdigit c) 31 p1
         in case expect (CHR '','') (snd count_buf) of Inl e \<Rightarrow> Inl e | Inr p2 \<Rightarrow>
            (case expect (CHR '']'') p2 of Inl e \<Rightarrow> Inl e | Inr p3 \<Rightarrow>
            (case expect (CHR ''{'') p3 of Inl e \<Rightarrow> Inl e | Inr p4 \<Rightarrow>
              (let hs = parse_headers 256 p4
               in case expect (CHR ''}'') (snd hs) of Inl e \<Rightarrow> Inl e | Inr p5 \<Rightarrow>
                  (case expect (CHR '':'') p5 of Inl e \<Rightarrow> Inl e | Inr p6 \<Rightarrow>
                  (case alloc_count (fst count_buf) of Inl e \<Rightarrow> Inl e | Inr num_rows \<Rightarrow>
                  (case parse_rows num_rows (length (fst hs)) (skip_whitespace p6) of
                     Inl e \<Rightarrow> Inl e
                   | Inr (rows, rest) \<Rightarrow> Inr (TOON_TABULAR_ARRAY (fst hs) rows, rest)))))))))"

text \<open>
  \<^verbatim>\<open>parse_value\<close> with \<^verbatim>\<open>parse_simple_array\<close> and its element loop. The look-ahead
  at an opening bracket skips the digits and asks for a comma.
\<close>

definition tabular_ahead :: "string \<Rightarrow> bool" where
  "tabular_ahead p = (peek (dropWhile isdigit (tl p)) = CHR '','')"

fun parse_value :: "nat \<Rightarrow> string \<Rightarrow> error + (ToonValue \<times> string)"
  and parse_simple_array :: "nat \<Rightarrow> string \<Rightarrow> error + (ToonValue \<times> string)"
  and parse_elements :: "nat \<Rightarrow> nat \<Rightarrow> string \<Rightarrow> error + (ToonValue list \<times> string)" where
  "parse_value 0 p = Inl FuelExhausted"
| "parse_value (Suc fuel) p0 =
     (let p = skip_whitespace p0; c = peek p
      in if c = CHR 0x22 then
           (case parse_quoted_string p of
              Inl e \<Rightarrow> Inl e
            | Inr (str, rest) \<Rightarrow> Inr (TOON_STRING str, rest))
         else if isdigit c \<or> c = CHR ''-'' then Inr (parse_number p)
         else if c = CHR ''['' then
           (if tabular_ahead p then parse_tabular_array p else parse_simple_array fuel p)
         else (let r = parse_unquoted_string p [CHR '','', CHR 0x0A, CHR 0x0D, CHR '':'']
               in Inr (keyword_value (fst r), snd r)))"
| "parse_simple_array fuel p =
     (case expect (CHR ''['') p of Inl e \<Rightarrow> Inl e | Inr p1 \<Rightarrow>
        (let count_buf = scan_segment (\<lambda>c. \<not> isdigit c) 31 p1
         in case expect (CHR '']'') (snd count_buf) of Inl e \<Rightarrow> Inl e | Inr p2 \<Rightarrow>
            (case expect (CHR '':'') p2 of Inl e \<Rightarrow> Inl e | Inr p3 \<Rightarrow>
            (case alloc_count (fst count_buf) of Inl e \<Rightarrow> Inl e | Inr len \<Rightarrow>
            (case parse_elements fuel len (skip_whitespace p3) of
               Inl e \<Rightarrow> Inl e
             | Inr (elements, rest) \<Rightarrow> Inr (TOON_ARRAY elements, rest))))))"
| "parse_elements fuel 0 p = Inr ([], p)"
| "parse_elements fuel (Suc k) p =
     (case parse_value fuel (skip_whitespace p) of
        Inl e \<Rightarrow> Inl e
      | Inr (v, p1) \<Rightarrow>
          (let p2 = skip_whitespace p1;
               p3 = (if k > 0 \<and> peek p2 = CHR '','' then advance p2 else p2)
           in case parse_elements fuel k p3 of
                Inl e \<Rightarrow> Inl e
              | Inr (vs, rest) \<Rightarrow> Inr (v # vs, rest)))"

text \<open>
  The entry loop of \<^verbatim>\<open>parse_object\<close>: it runs while input remains and fewer than
  256 entries were read; the counter is \<^verbatim>\<open>256 - length\<close>.
\<close>

fun parse_entries :: "nat \<Rightarrow> nat \<Rightarrow> string \<Rightarrow> error + (ToonObjectEntry list \<times> string)" where
  "parse_entries fuel 0 p = Inr ([], p)"
| "parse_entries fuel (Suc k) p =
     (if peek p = CHR 0x00 then Inr ([], p)
      else
        (let p1 = skip_whitespace p
         in if peek p1 = CHR 0x00 then Inr ([], p1)
            else
              (let key_buf = scan_segment (\<lambda>c. c = CHR '':'') 255 p1;
                   key = trim_right (dropWhile isspace (fst key_buf))
               in if peek (snd key_buf) \<noteq> CHR '':'' then Inr ([], snd key_buf)
                  else
                    (case parse_value fuel (skip_whitespace (advance (snd key_buf))) of
                       Inl e \<Rightarrow> Inl e
                     | Inr (v, p2) \<Rightarrow>
                         (let p3 = skip_whitespace p2;
                              p4 = (if peek p3 = CHR 0x0A then advance p3 else p3)
                          in case parse_entries fuel k p4 of
                               Inl e \<Rightarrow> Inl e
                             | Inr (es, rest) \<Rightarrow> Inr ((key, v) # es, rest))))))"

definition parse_object :: "nat \<Rightarrow> string \<Rightarrow> error + (ToonValue \<times> string)" where
  "parse_object fuel p =
     (case parse_entries fuel 256 p of
        Inl e \<Rightarrow> Inl e
      | Inr (entries, rest) \<Rightarrow> Inr (TOON_OBJECT entries, rest))"

text \<open>
  The look-ahead of \<^verbatim>\<open>toon_decode\<close> over the first line: a colon whose preceding
  byte is not a closing bracket makes the text an object. \<open>prev\<close> is that preceding
  byte.
\<close>

fun looks_like_object :: "char \<Rightarrow> string \<Rightarrow> bool" where
  "looks_like_object prev [] = False"
| "looks_like_object prev (c # p) =
     (if c = CHR 0x00 \<or> c = CHR 0x0A then False
      else if c = CHR '':'' \<and> prev \<noteq> CHR '']'' then True
      else looks_like_object c p)"

text \<open>
  Every level of nesting consumes an opening bracket, so the length of the text bounds
  the depth. Before the first byte of the cursor lies skipped white space (or nothing the
  code may read), so the first \<open>prev\<close> is a blank.
\<close>

definition toon_decode :: "string \<Rightarrow> error + ToonValue" where
  "toon_decode toon_string =
     (let p = skip_whitespace toon_string;
          fuel = Suc (length toon_string);
          result = (if looks_like_object (CHR '' '') p then parse_object fuel p
                    else parse_value fuel p)
      in case result of Inl e \<Rightarrow> Inl e | Inr (v, rest) \<Rightarrow> Inr v)"

section \<open>JSON bridge (toon_json.c)\<close>

fun json_object_members :: "bool \<Rightarrow> (string \<times> string) list \<Rightarrow> string" where
  "json_object_members first [] = []"
| "json_object_members first ((key, val) # es) =
     (if first then [] else '','') @ [CHR 0x22] @ key @ [CHR 0x22] @ '':'' @ val
     @ json_object_members False es"

function (sequential) toon_to_json :: "ToonValue \<Rightarrow> string" where
  "toon_to_json TOON_NULL = ''null''"
| "toon_to_json (TOON_BOOLEAN b) = (if b then ''true'' else ''false'')"
| "toon_to_json (TOON_NUMBER num) = format_number num"
| "toon_to_json (TOON_STRING str) = escape_string str"
| "toon_to_json (TOON_ARRAY elements) =
     ''['' @ comma_join (map toon_to_json elements) @ '']''"
| "toon_to_json (TOON_OBJECT entries) =
     ''{'' @ json_object_members True (map (\<lambda>e. (fst e, toon_to_json (snd e))) entries) @ ''}''"
| "toon_to_json (TOON_TABULAR_ARRAY headers rows) =
     ''['' @ comma_join (map (\<lambda>row. ''{''
               @ json_object_members True
                   (zip headers (map toon_to_json (take (length headers) row)))
               @ ''}'') rows) @ '']''"
  by pat_completeness auto
termination
proof (relation "measure size")
  fix headers :: "string list" and rows :: "ToonValue list list" and row cell
  assume "row \<in> set rows" and "cell \<in> set (take (length headers) row)"
  then show "(cell, TOON_TABULAR_ARRAY headers rows) \<in> measure size"
    using size_cell_less [of row rows cell "length headers"] by simp
next
  fix entries :: "ToonObjectEntry list" and e
  assume "e \<in> set entries"
  then have "size (snd e) < Suc (size_list (size_prod (\<lambda>x. 0) size) entries)"
    by (rule size_entry_less)
  then show "(snd e, TOON_OBJECT entries) \<in> measure size"
    by simp
qed (auto simp: less_Suc_eq_le intro: size_list_estimation')

text \<open>
  The JSON parser keeps only a cursor. A failed sub-parse sets \<^verbatim>\<open>jp->error\<close> and
  \<^verbatim>\<open>json_to_toon\<close> then returns NULL: the model stops at the first failure. The C
  array loop goes on after a child has failed, with a NULL child in its buffer, and may
  fault on it before \<^verbatim>\<open>json_to_toon\<close> returns; \<open>Inl\<close> stands for every outcome that
  follows a first failure. A failure of the outermost container itself (the closing bracket
  or brace is missing) is returned as NULL at once.
\<close>

definition skip_json_whitespace :: "string \<Rightarrow> string" where
  "skip_json_whitespace p = dropWhile isspace p"

definition json_match :: "string \<Rightarrow> string \<Rightarrow> bool" where
  "json_match p str = (take (length str) p = str)"

definition json_unescape :: "char \<Rightarrow> char" where
  "json_unescape c =
     (if c = CHR ''n'' then CHR 0x0A
      else if c = CHR ''r'' then CHR 0x0D
      else if c = CHR ''t'' then CHR 0x09
      else c)"

fun json_string_chars :: "string \<Rightarrow> string \<times> string" where
  "json_string_chars [] = ([], [])"
| "json_string_chars (c # p) =
     (if c = CHR 0x22 \<or> c = CHR 0x00 then ([], c # p)
      else if c = CHR 0x5C then
        (if peek p = CHR 0x00 then ([], p)
         else (json_unescape (peek p) # fst (json_string_chars (tl p)),
               snd (json_string_chars (tl p))))
      else (c # fst (json_string_chars p), snd (json_string_chars p)))"

definition parse_json_string :: "string \<Rightarrow> error + (string \<times> string)" where
  "parse_json_string p =
     (case expect (CHR 0x22) p of
        Inl e \<Rightarrow> Inl e
      | Inr p1 \<Rightarrow>
          (let r = json_string_chars p1
           in case expect (CHR 0x22) (snd r) of
                Inl e \<Rightarrow> Inl e
              | Inr p2 \<Rightarrow> Inr (take 4095 (fst r), p2)))"

definition is_json_number_char :: "char \<Rightarrow> bool" where
  "is_json_number_char c =
     (isdigit c \<or> c = CHR ''.'' \<or> c = CHR ''e'' \<or> c = CHR ''E''
      \<or> c = CHR ''+'' \<or> c = CHR ''-'')"

definition parse_json_number :: "string \<Rightarrow> ToonValue \<times> string" where
  "parse_json_number p =
     (let minus = (peek p = CHR ''-'');
          p1 = (if minus then advance p else p);
          remaining = (if minus then 62 else 63 :: nat);
          digits = scan_segment (\<lambda>c. \<not> is_json_number_char c) remaining p1;
          buffer = (if minus then ''-'' else []) @ fst digits
      in (TOON_NUMBER (fst (strtod buffer)), snd digits))"

text \<open>
  The end of \<^verbatim>\<open>parse_json_array\<close>: an array of two or more objects that all have
  as many entries as the first, and at least one, becomes a tabular array.
\<close>

fun same_length_objects :: "nat \<Rightarrow> ToonValue list \<Rightarrow> bool" where
  "same_length_objects first_len [] = True"
| "same_length_objects first_len (e # es) =
     (case e of
        TOON_OBJECT entries \<Rightarrow>
          if length entries \<noteq> first_len then False else same_length_objects first_len es
      | _ \<Rightarrow> False)"

definition object_entries :: "ToonValue \<Rightarrow> ToonObjectEntry list" where
  "object_entries v = (case v of TOON_OBJECT entries \<Rightarrow> entries | _ \<Rightarrow> [])"

definition promote_array :: "ToonValue list \<Rightarrow> ToonValue" where
  "promote_array elements =
     (case elements of
        TOON_OBJECT first # others \<Rightarrow>
          if length elements > 1 then
            (let first_len = length first
             in if same_length_objects first_len others \<and> first_len > 0 then
                  TOON_TABULAR_ARRAY
                    (map (\<lambda>i. fst (first ! i)) [0..<first_len])
                    (map (\<lambda>row. map (\<lambda>col. snd (object_entries row ! col)) [0..<first_len])
                         elements)
                else TOON_ARRAY elements)
          else TOON_ARRAY elements
      | _ \<Rightarrow> TOON_ARRAY elements)"

function (sequential) parse_json_value :: "nat \<Rightarrow> string \<Rightarrow> error + (ToonValue \<times> string)"
  and parse_json_array :: "nat \<Rightarrow> string \<Rightarrow> error + (ToonValue \<times> string)"
  and parse_json_elements :: "nat \<Rightarrow> nat \<Rightarrow> string \<Rightarrow> error + (ToonValue list \<times> string)"
  and parse_json_object :: "nat \<Rightarrow> string \<Rightarrow> error + (ToonValue \<times> string)"
  and parse_json_entries ::
    "nat \<Rightarrow> nat \<Rightarrow> string \<Rightarrow> error + (ToonObjectEntry list \<times> string)" where
  "parse_json_value 0 p = Inl FuelExhausted"
| "parse_json_value (Suc fuel) p0 =
     (let p = skip_json_whitespace p0; c = peek p
      in if c = CHR 0x22 then
           (case parse_json_string p of
              Inl e \<Rightarrow> Inl e
            | Inr (str, rest) \<Rightarrow> Inr (TOON_STRING str, rest))
         else if c = CHR ''{'' then parse_json_object fuel p
         else if c = CHR ''['' then parse_json_array fuel p
         else if json_match p ''true'' then Inr (TOON_BOOLEAN True, drop 4 p)
         else if json_match p ''false'' then Inr (TOON_BOOLEAN False, drop 5 p)
         else if json_match p ''null'' then Inr (TOON_NULL, drop 4 p)
         else if isdigit c \<or> c = CHR ''-'' then Inr (parse_json_number p)
         else Inl SyntaxError)"
| "parse_json_array fuel p =
     (case expect (CHR ''['') p of Inl e \<Rightarrow> Inl e | Inr p1 \<Rightarrow>
        (case parse_json_elements fuel 256 (skip_json_whitespace p1) of
           Inl e \<Rightarrow> Inl e
         | Inr (elements, p2) \<Rightarrow>
             (case expect (CHR '']'') p2 of
                Inl e \<Rightarrow> Inl e
              | Inr p3 \<Rightarrow> Inr (promote_array elements, p3))))"
| "parse_json_elements fuel 0 p = Inr ([], p)"
| "parse_json_elements fuel (Suc k) p =
     (if peek p = CHR '']'' \<or> peek p = CHR 0x00 then Inr ([], p)
      else
        (case parse_json_value fuel p of
           Inl e \<Rightarrow> Inl e
         | Inr (v, p1) \<Rightarrow>
             (let p2 = skip_json_whitespace p1;
                  p3 = (if peek p2 = CHR '','' then skip_json_whitespace (advance p2) else p2)
              in case parse_json_elements fuel k p3 of
                   Inl e \<Rightarrow> Inl e
                 | Inr (vs, rest) \<Rightarrow> Inr (v # vs, rest))))"
| "parse_json_object fuel p =
     (case expect (CHR ''{'') p of Inl e \<Rightarrow> Inl e | Inr p1 \<Rightarrow>
        (case parse_json_entries fuel 256 (skip_json_whitespace p1) of
           Inl e \<Rightarrow> Inl e
         | Inr (entries, p2) \<Rightarrow>
             (case expect (CHR ''}'') p2 of
                Inl e \<Rightarrow> Inl e
              | Inr p3 \<Rightarrow> Inr (TOON_OBJECT entries, p3))))"
| "parse_json_entries fuel 0 p = Inr ([], p)"
| "parse_json_entries fuel (Suc k) p =
     (if peek p = CHR ''}'' \<or> peek p = CHR 0x00 then Inr ([], p)
      else
        (case parse_json_string (skip_json_whitespace p) of
           Inl e \<Rightarrow> Inl e
         | Inr (key, p1) \<Rightarrow>
             (case expect (CHR '':'') (skip_json_whitespace p1) of
                Inl e \<Rightarrow> Inl e
              | Inr p2 \<Rightarrow>
                  (case parse_json_value fuel (skip_json_whitespace p2) of
                     Inl e \<Rightarrow> Inl e
                   | Inr (v, p3) \<Rightarrow>
                       (let p4 = skip_json_whitespace p3;
                            p5 = (if peek p4 = CHR '','' then skip_json_whitespace (advance p4)
                                  else p4)
                        in case parse_json_entries fuel k p5 of
                             Inl e \<Rightarrow> Inl e
                           | Inr (es, rest) \<Rightarrow> Inr ((key, v) # es, rest))))))"
  by pat_completeness auto
termination
  by (relation "measures
        [\<lambda>x. case x of Inl (Inl (fuel, p)) \<Rightarrow> fuel
               | Inl (Inr (fuel, p)) \<Rightarrow> fuel
               | Inr (Inl (fuel, k, p)) \<Rightarrow> fuel
               | Inr (Inr (Inl (fuel, p))) \<Rightarrow> fuel
               | Inr (Inr (Inr (fuel, k, p))) \<Rightarrow> fuel,
         \<lambda>x. case x of Inl (Inl (fuel, p)) \<Rightarrow> 0
               | Inl (Inr (fuel, p)) \<Rightarrow> 2
               | Inr (Inl (fuel, k, p)) \<Rightarrow> 1
               | Inr (Inr (Inl (fuel, p))) \<Rightarrow> 2
               | Inr (Inr (Inr (fuel, k, p))) \<Rightarrow> 1,
         \<lambda>x. case x of Inl (Inl (fuel, p)) \<Rightarrow> 0
               | Inl (Inr (fuel, p)) \<Rightarrow> 0
               | Inr (Inl (fuel, k, p)) \<Rightarrow> k
               | Inr (Inr (Inl (fuel, p))) \<Rightarrow> 0
               | Inr (Inr (Inr (fuel, k, p))) \<Rightarrow> k]") auto

definition json_to_toon :: "string \<Rightarrow> error + ToonValue" where
  "json_to_toon json_string =
     (case parse_json_value (Suc (length json_string)) json_string of
        Inl e \<Rightarrow> Inl e
      | Inr (v, rest) \<Rightarrow> Inr v)"

section \<open>Path engine (toon_path.c)\<close>

text \<open>
  The two inner loops of \<^verbatim>\<open>path_parse\<close> copy at most 255 bytes into the segment
  buffer and stop at the end of the string or at a stop character.
\<close>

definition skip_close :: "string \<Rightarrow> string" where
  "skip_close p = (case p of [] \<Rightarrow> [] | c # r \<Rightarrow> if c = CHR '']'' then r else c # r)"

lemma skip_close_length: "length (skip_close p) \<le> length p"
  by (simp add: skip_close_def split: list.splits)

function path_segments :: "string \<Rightarrow> string list" where
  "path_segments [] = []"
| "path_segments (c # p) =
     (if c = CHR ''.'' then
        (let segment = fst (scan_segment (\<lambda>c. c = CHR ''.'' \<or> c = CHR ''['') 255 p);
             rest = snd (scan_segment (\<lambda>c. c = CHR ''.'' \<or> c = CHR ''['') 255 p)
         in (if segment \<noteq> [] then [segment] else []) @ path_segments rest)
      else if c = CHR ''['' then
        (let segment = fst (scan_segment (\<lambda>c. c = CHR '']'') 255 p);
             rest = skip_close (snd (scan_segment (\<lambda>c. c = CHR '']'') 255 p))
         in (if segment \<noteq> [] then [''['' @ segment @ '']''] else []) @ path_segments rest)
      else [])"
  by pat_completeness auto
termination
proof (relation "measure length")
  show "wf (measure length)" by simp
next
  fix c p segment rest
  assume "rest = snd (scan_segment (\<lambda>c. c = CHR ''.'' \<or> c = CHR ''['') 255 p)"
  then show "(rest, c # p) \<in> measure length"
    using scan_segment_length [of "\<lambda>c. c = CHR ''.'' \<or> c = CHR ''[''" 255 p] by simp
next
  fix c p segment rest
  assume "rest = skip_close (snd (scan_segment (\<lambda>c. c = CHR '']'') 255 p))"
  then show "(rest, c # p) \<in> measure length"
    using scan_segment_length [of "\<lambda>c. c = CHR '']''" 255 p]
          skip_close_length [of "snd (scan_segment (\<lambda>c. c = CHR '']'') 255 p)"]
    by simp
qed

text \<open>\<^verbatim>\<open>path_parse\<close> returns NULL unless the string starts with a dollar sign.\<close>

definition path_parse :: "string \<Rightarrow> string list option" where
  "path_parse path_str =
     (case path_str of
        [] \<Rightarrow> None
      | c # p \<Rightarrow> if c = CHR ''$'' then Some (path_segments p) else None)"

text \<open>The first entry whose key equals the segment (\<^verbatim>\<open>strcmp(...) == 0\<close>).\<close>

fun find_key :: "string \<Rightarrow> ToonObjectEntry list \<Rightarrow> nat option" where
  "find_key k [] = None"
| "find_key k (e # es) =
     (if fst e = k then Some 0
      else (case find_key k es of None \<Rightarrow> None | Some i \<Rightarrow> Some (Suc i)))"

definition is_index_segment :: "string \<Rightarrow> bool" where
  "is_index_segment segment = (case segment of [] \<Rightarrow> False | c # _ \<Rightarrow> c = CHR ''['')"

text \<open>
  The index of a bracket segment against a container of \<open>n\<close> children, held in an
  \<^verbatim>\<open>int\<close>: a negative value counts from the end (\<^verbatim>\<open>index = length + index\<close>, the
  sum taken in \<^verbatim>\<open>size_t\<close> and converted back to \<^verbatim>\<open>int\<close>); the result is
  \<open>None\<close> when it is out of range.
\<close>

definition resolve_index :: "string \<Rightarrow> nat \<Rightarrow> nat option" where
  "resolve_index segment n =
     (let index = atoi (tl segment);
          index = (if index < 0 then to_int32 (int n + index) else index)
      in if index < 0 \<or> nat index \<ge> n then None else Some (nat index))"

text \<open>
  \<^verbatim>\<open>path_navigate(root, path, segment_index)\<close> walks every segment from
  \<^verbatim>\<open>segment_index\<close> to the end of the path. The model receives the remaining
  segments. The C function returns a pointer into the tree; the model returns the position
  of that node below \<open>root\<close> (the child index taken at each step) together with the
  node. \<open>None\<close> is the NULL result.
\<close>

fun path_navigate :: "ToonValue \<Rightarrow> string list \<Rightarrow> (nat list \<times> ToonValue) option" where
  "path_navigate rt [] = Some ([], rt)"
| "path_navigate rt (segment # rest) =
     (if is_index_segment segment then
        (case rt of
           TOON_ARRAY elements \<Rightarrow>
             if segment = ''[*]'' then None
             else (case resolve_index segment (length elements) of
                     None \<Rightarrow> None
                   | Some i \<Rightarrow>
                       (case path_navigate (elements ! i) rest of
                          None \<Rightarrow> None
                        | Some (loc, v) \<Rightarrow> Some (i # loc, v)))
         | TOON_TABULAR_ARRAY headers rows \<Rightarrow>
             if segment = ''[*]'' then None
             else (case resolve_index segment (length rows) of
                     None \<Rightarrow> None
                   | Some i \<Rightarrow> None)
         | _ \<Rightarrow> None)
      else
        (case rt of
           TOON_OBJECT entries \<Rightarrow>
             (case find_key segment entries of
                None \<Rightarrow> None
              | Some i \<Rightarrow>
                  (case path_navigate (snd (entries ! i)) rest of
                     None \<Rightarrow> None
                   | Some (loc, v) \<Rightarrow> Some (i # loc, v)))
         | _ \<Rightarrow> None))"

definition toon_path_get :: "ToonValue \<Rightarrow> string \<Rightarrow> ToonValue option" where
  "toon_path_get rt path_str =
     (if path_str = ''$'' then Some rt
      else (case path_parse path_str of
              None \<Rightarrow> None
            | Some path \<Rightarrow> map_option snd (path_navigate rt path)))"

text \<open>
  In-place mutation through the parent pointer: the node at a position is replaced by
  the result of a function on it. Every value owns its children and nothing is shared,
  so a position below the root identifies the pointer.
\<close>

fun update_at :: "nat list \<Rightarrow> (ToonValue \<Rightarrow> ToonValue) \<Rightarrow> ToonValue \<Rightarrow> ToonValue" where
  "update_at [] f v = f v"
| "update_at (i # loc) f (TOON_ARRAY elements) =
     TOON_ARRAY (elements[i := update_at loc f (elements ! i)])"
| "update_at (i # loc) f (TOON_OBJECT entries) =
     TOON_OBJECT (entries[i := (fst (entries ! i), update_at loc f (snd (entries ! i)))])"
| "update_at (i # loc) f v = v"

text \<open>
  The loop shared by \<^verbatim>\<open>toon_path_set\<close> and \<^verbatim>\<open>toon_path_delete\<close>:
  \<^verbatim>\<open>for (i = 0; i < num_segments - 1; i++) parent = path_navigate(parent, path, i);\<close>
  Each call walks the path from segment \<open>i\<close> to its end, starting at the current
  parent.
\<close>

function navigate_to_parent ::
  "string list \<Rightarrow> nat \<Rightarrow> nat list \<times> ToonValue \<Rightarrow> (nat list \<times> ToonValue) option" where
  "navigate_to_parent path i parent =
     (if i < length path - 1 then
        (case path_navigate (snd parent) (drop i path) of
           None \<Rightarrow> None
         | Some (loc, v) \<Rightarrow> navigate_to_parent path (Suc i) (fst parent @ loc, v))
      else Some parent)"
  by pat_completeness auto
termination
  by (relation "measure (\<lambda>(path, i, parent). length path - 1 - i)") auto

declare navigate_to_parent.simps [simp del]


text \<open>
  The shift loop of the delete:
  \<^verbatim>\<open>for (i = index; i < length - 1; i++) a[i] = a[i + 1]; length--;\<close>
\<close>

function shift_down :: "'a list \<Rightarrow> nat \<Rightarrow> 'a list" where
  "shift_down a i = (if i < length a - 1 then shift_down (a[i := a ! (i + 1)]) (i + 1) else a)"
  by pat_completeness auto
termination
  by (relation "measure (\<lambda>(a, i). length a - 1 - i)") auto

declare shift_down.simps [simp del]

definition remove_slot :: "'a list \<Rightarrow> nat \<Rightarrow> 'a list" where
  "remove_slot a index = take (length a - 1) (shift_down a index)"

definition toon_path_delete :: "ToonValue \<Rightarrow> string \<Rightarrow> int \<times> ToonValue" where
  "toon_path_delete rt path_str =
     (if path_str = ''$'' then (- 1, rt)
      else (case path_parse path_str of
        None \<Rightarrow> (- 1, rt)
      | Some path \<Rightarrow>
          if length path = 0 then (- 1, rt)
          else (case navigate_to_parent path 0 ([], rt) of
            None \<Rightarrow> (- 1, rt)
          | Some (ploc, parent) \<Rightarrow>
              let last_segment = path ! (length path - 1) in
              if is_index_segment last_segment then
                (case parent of
                   TOON_ARRAY elements \<Rightarrow>
                     (case resolve_index last_segment (length elements) of
                        None \<Rightarrow> (- 1, rt)
                      | Some i \<Rightarrow>
                          (0, update_at ploc (\<lambda>_. TOON_ARRAY (remove_slot elements i)) rt))
                 | _ \<Rightarrow> (- 1, rt))
              else
                (case parent of
                   TOON_OBJECT entries \<Rightarrow>
                     (case find_key last_segment entries of
                        Some i \<Rightarrow>
                          (0, update_at ploc (\<lambda>_. TOON_OBJECT (remove_slot entries i)) rt)
                      | None \<Rightarrow> (- 1, rt))
                 | _ \<Rightarrow> (- 1, rt)))))"

section \<open>Structural operations (toon_operations.c)\<close>

function (sequential) toon_value_copy :: "ToonValue \<Rightarrow> ToonValue" where
  "toon_value_copy TOON_NULL = TOON_NULL"
| "toon_value_copy (TOON_BOOLEAN b) = TOON_BOOLEAN b"
| "toon_value_copy (TOON_NUMBER num) = TOON_NUMBER num"
| "toon_value_copy (TOON_STRING str) = TOON_STRING str"
| "toon_value_copy (TOON_ARRAY elements) = TOON_ARRAY (map toon_value_copy elements)"
| "toon_value_copy (TOON_OBJECT entries) =
     TOON_OBJECT (map (\<lambda>e. (fst e, toon_value_copy (snd e))) entries)"
| "toon_value_copy (TOON_TABULAR_ARRAY headers rows) =
     TOON_TABULAR_ARRAY headers
       (map (\<lambda>row. map toon_value_copy (take (length headers) row)) rows)"
  by pat_completeness auto
termination
proof (relation "measure size")
  fix headers :: "string list" and rows :: "ToonValue list list" and row cell
  assume "row \<in> set rows" and "cell \<in> set (take (length headers) row)"
  then show "(cell, TOON_TABULAR_ARRAY headers rows) \<in> measure size"
    using size_cell_less [of row rows cell "length headers"] by simp
next
  fix entries :: "ToonObjectEntry list" and e
  assume "e \<in> set entries"
  then have "size (snd e) < Suc (size_list (size_prod (\<lambda>x. 0) size) entries)"
    by (rule size_entry_less)
  then show "(snd e, TOON_OBJECT entries) \<in> measure size"
    by simp
qed (auto simp: less_Suc_eq_le intro: size_list_estimation')

definition is_object :: "ToonValue \<Rightarrow> bool" where
  "is_object v = (case v of TOON_OBJECT _ \<Rightarrow> True | _ \<Rightarrow> False)"

text \<open>
  \<^verbatim>\<open>toon_merge\<close> returns 0 or -1 and mutates the target; the model returns the status
  and the target after the call. \<open>merge_entries\<close> is the loop over the source entries,
  \<open>merge_entry\<close> the search loop over the target entries for one source entry
  (\<open>None\<close>: the key was not found).
\<close>

function (sequential) toon_merge :: "ToonValue \<Rightarrow> ToonValue \<Rightarrow> int \<times> ToonValue"
  and merge_entries :: "ToonObjectEntry list \<Rightarrow> ToonObjectEntry list \<Rightarrow> ToonObjectEntry list"
  and merge_entry ::
    "ToonObjectEntry list \<Rightarrow> string \<Rightarrow> ToonValue \<Rightarrow> ToonObjectEntry list option" where
  "toon_merge (TOON_OBJECT target) (TOON_OBJECT source) =
     (0, TOON_OBJECT (merge_entries target source))"
| "toon_merge target source = (- 1, target)"
| "merge_entries target [] = target"
| "merge_entries target ((key, src_value) # source) =
     merge_entries
       (case merge_entry target key src_value of
          Some target' \<Rightarrow> target'
        | None \<Rightarrow> target @ [(key, toon_value_copy src_value)])
       source"
| "merge_entry [] key src_value = None"
| "merge_entry ((k, v) # target) key src_value =
     (if k = key then
        Some ((k, if is_object v \<and> is_object src_value then snd (toon_merge v src_value)
                  else toon_value_copy src_value) # target)
      else (case merge_entry target key src_value of
              None \<Rightarrow> None
            | Some target' \<Rightarrow> Some ((k, v) # target')))"
  by pat_completeness auto
termination
  by (relation "measures
        [\<lambda>x. case x of Inl (target, source) \<Rightarrow> size source
               | Inr (Inl (target, source)) \<Rightarrow> size_list (size_prod (\<lambda>x. 0) size) source
               | Inr (Inr (target, key, src_value)) \<Rightarrow> size src_value,
         \<lambda>x. case x of Inl (target, source) \<Rightarrow> 0
               | Inr (Inl (target, source)) \<Rightarrow> 0
               | Inr (Inr (target, key, src_value)) \<Rightarrow> 1,
         \<lambda>x. case x of Inl (target, source) \<Rightarrow> 0
               | Inr (Inl (target, source)) \<Rightarrow> 0
               | Inr (Inr (target, key, src_value)) \<Rightarrow> length target]") auto

text \<open>
  The merge step in the words of the specification: look for the first entry of the target
  with the key of the source entry; if there is none, append a deep copy under that key; if
  there is one and both values are objects, merge them; otherwise replace the value by a
  deep copy.
\<close>

definition merge_step_spec :: "ToonObjectEntry list \<Rightarrow> ToonObjectEntry \<Rightarrow> ToonObjectEntry list" where
  "merge_step_spec target e =
     (case find_key (fst e) target of
        None \<Rightarrow> target @ [(fst e, toon_value_copy (snd e))]
      | Some j \<Rightarrow>
          if is_object (snd (target ! j)) \<and> is_object (snd e)
          then target[j := (fst e, snd (toon_merge (snd (target ! j)) (snd e)))]
          else target[j := (fst e, toon_value_copy (snd e))])"

text \<open>
  In C every row of a tabular array is an array of exactly \<^verbatim>\<open>num_headers\<close> cells.
  \<open>well_formed\<close> says so of a model value.
\<close>

fun well_formed :: "ToonValue \<Rightarrow> bool" where
  "well_formed (TOON_ARRAY elements) = list_all well_formed elements"
| "well_formed (TOON_OBJECT entries) = list_all (\<lambda>e. well_formed (snd e)) entries"
| "well_formed (TOON_TABULAR_ARRAY headers rows) =
     list_all (\<lambda>row. length row = length headers \<and> list_all well_formed row) rows"
| "well_formed v = True"

text \<open>
  The condition for promotion in the words of the specification, with the condition the
  code adds: two or more elements, every element an object, every element with as many
  entries as the first, and at least one entry.
\<close>

definition promotes :: "ToonValue list \<Rightarrow> bool" where
  "promotes elements \<longleftrightarrow>
     length elements \<ge> 2
     \<and> list_all is_object elements
     \<and> list_all (\<lambda>e. length (object_entries e) = length (object_entries (hd elements))) elements
     \<and> length (object_entries (hd elements)) > 0"

text \<open>No container of a value holds more than \<open>n\<close> children.\<close>

fun children_bounded :: "nat \<Rightarrow> ToonValue \<Rightarrow> bool" where
  "children_bounded n (TOON_ARRAY elements) =
     (length elements \<le> n \<and> list_all (children_bounded n) elements)"
| "children_bounded n (TOON_OBJECT entries) =
     (length entries \<le> n \<and> list_all (\<lambda>e. children_bounded n (snd e)) entries)"
| "children_bounded n (TOON_TABULAR_ARRAY headers rows) =
     (length headers \<le> n \<and> length rows \<le> n
      \<and> list_all (\<lambda>row. length row \<le> n \<and> list_all (children_bounded n) row) rows)"
| "children_bounded n v = True"


text \<open>
  When a string needs quoting, in the words of the specification: it is empty, is one of
  the keywords, parses fully as a number, has leading or trailing white space, or contains
  a comma, colon, newline, carriage return, brace, bracket or control character (a byte
  below 32). \<open>high_byte\<close> holds of the bytes 0x80 to 0xFF.
\<close>

definition is_control :: "char \<Rightarrow> bool" where
  "is_control c = ((of_char c :: nat) < 32)"

definition needs_quoting_spec :: "string \<Rightarrow> bool" where
  "needs_quoting_spec s \<longleftrightarrow>
     s = []
     \<or> s = ''null'' \<or> s = ''true'' \<or> s = ''false''
     \<or> snd (strtod s) = []
     \<or> isspace (hd s) \<or> isspace (last s)
     \<or> list_ex (\<lambda>c. c = CHR '','' \<or> c = CHR '':'' \<or> c = CHR 0x0A \<or> c = CHR 0x0D
                    \<or> c = CHR ''{'' \<or> c = CHR ''}'' \<or> c = CHR ''['' \<or> c = CHR '']''
                    \<or> is_control c) s"

definition high_byte :: "char \<Rightarrow> bool" where
  "high_byte c = ((of_char c :: nat) \<ge> 128)"

text \<open>
  The strings and scalars for which the text of the encoder is read back unchanged by the
  decoder. A string is unambiguous when it is a C string (no NUL byte), holds no colon (the
  look-ahead of \<open>toon_decode\<close> takes a colon on the first line for a key separator, also
  between quotes), its encoded text fits the 4096-byte buffers of \<open>encode_value\<close> and of the
  decoder's string readers, and, when it is written bare, it does not start like a quoted string
  or a number. A number is taken when it is integral and in the range of \<open>long\<close>, so that it
  is printed with \<open>%ld\<close>.
\<close>

definition unambiguous_string :: "string \<Rightarrow> bool" where
  "unambiguous_string s \<longleftrightarrow>
     CHR 0x00 \<notin> set s \<and> CHR '':'' \<notin> set s
     \<and> length (if needs_quoting s then escape_string s else s) \<le> 4095
     \<and> (needs_quoting s \<or> (hd s \<noteq> CHR 0x22 \<and> hd s \<noteq> CHR ''-'' \<and> \<not> isdigit (hd s)))"

definition round_trip_scalar :: "ToonValue \<Rightarrow> bool" where
  "round_trip_scalar v =
     (case v of
        TOON_NULL \<Rightarrow> True
      | TOON_BOOLEAN b \<Rightarrow> True
      | TOON_NUMBER num \<Rightarrow> of_int \<lfloor>num\<rfloor> = num \<and> - (2 ^ 63) \<le> \<lfloor>num\<rfloor> \<and> \<lfloor>num\<rfloor> < 2 ^ 63
      | TOON_STRING s \<Rightarrow> unambiguous_string s
      | _ \<Rightarrow> False)"

text \<open>
  A heap whose fresh blocks hold zero bytes. The text of a value without composite parts
  depends neither on stale bytes nor on the indent or the mode; \<open>scalar_text\<close> is that text,
  and \<open>array_text\<close> the text \<open>encode_array\<close> writes for an array of such values.
\<close>

definition zero_heap :: stale_bytes where
  "zero_heap loc = []"

definition scalar_text :: "ToonValue \<Rightarrow> string" where
  "scalar_text v = encode_value zero_heap v 0 True"

definition array_text :: "ToonValue list \<Rightarrow> string" where
  "array_text vs = CHR ''['' # show_nat (length vs) @ CHR '']'' # CHR '':'' # CHR '' ''
                     # comma_join (map scalar_text vs)"

text \<open>
  The flat values: a scalar as above, or an array of fewer than \<open>2 ^ 31\<close> such scalars (the
  count in the header is read back by \<^verbatim>\<open>atoi\<close>).
\<close>

definition round_trip_flat_value :: "ToonValue \<Rightarrow> bool" where
  "round_trip_flat_value v =
     (case v of
        TOON_ARRAY vs \<Rightarrow> list_all round_trip_scalar vs \<and> length vs < 2 ^ 31
      | _ \<Rightarrow> round_trip_scalar v)"

section \<open>Properties\<close>

subsection \<open>Decimal text\<close>

lemma isdigit_char_of: "d < 10 \<Longrightarrow> isdigit (char_of (48 + (d::nat)))"
  by (simp add: isdigit_def)

lemma digit_value_char_of: "d < 10 \<Longrightarrow> digit_value (char_of (48 + (d::nat))) = int d"
  by (simp add: digit_value_def)

lemma show_nat_small: "n < 10 \<Longrightarrow> show_nat n = [char_of (48 + n)]"
  by (subst show_nat.simps) simp

lemma show_nat_large:
  "\<not> n < 10 \<Longrightarrow> show_nat n = show_nat (n div 10) @ [char_of (48 + n mod 10)]"
  by (subst show_nat.simps) simp

lemma show_nat_digits: "c \<in> set (show_nat n) \<Longrightarrow> isdigit c"
proof (induction n rule: show_nat.induct)
  case (1 n)
  show ?case
  proof (cases "n < 10")
    case True
    with "1.prems" show ?thesis by (simp add: show_nat_small isdigit_char_of)
  next
    case False
    from "1.prems" have "c \<in> set (show_nat (n div 10)) \<or> c = char_of (48 + n mod 10)"
      using False by (auto simp: show_nat_large)
    then show ?thesis using "1.IH" False by (auto simp: isdigit_char_of)
  qed
qed

lemma show_nat_nonempty: "show_nat n \<noteq> []"
  by (cases "n < 10") (simp_all add: show_nat_small show_nat_large)

lemma atoi_digits_show_nat:
  "atoi_digits acc (show_nat n @ rest) = atoi_digits (acc * 10 ^ length (show_nat n) + int n) rest"
proof (induction n arbitrary: acc rest rule: show_nat.induct)
  case (1 n)
  show ?case
  proof (cases "n < 10")
    case True
    then show ?thesis by (simp add: show_nat_small isdigit_char_of digit_value_char_of)
  next
    case False
    have "atoi_digits acc (show_nat n @ rest)
        = atoi_digits acc (show_nat (n div 10) @ (char_of (48 + n mod 10) # rest))"
      using False by (simp add: show_nat_large)
    also have "\<dots> = atoi_digits (acc * 10 ^ length (show_nat (n div 10)) + int (n div 10)) (char_of (48 + n mod 10) # rest)"
      using False "1.IH" by simp
    also have "\<dots> = atoi_digits ((acc * 10 ^ length (show_nat (n div 10)) + int (n div 10)) * 10 + int (n mod 10)) rest"
      by (simp add: isdigit_char_of digit_value_char_of)
    also have "(acc * 10 ^ length (show_nat (n div 10)) + int (n div 10)) * 10 + int (n mod 10)
             = acc * 10 ^ length (show_nat n) + int n"
    proof -
      have "length (show_nat n) = Suc (length (show_nat (n div 10)))"
        using False by (simp add: show_nat_large)
      moreover have "int (n div 10) * 10 + int (n mod 10) = int n"
        by (simp add: zdiv_int zmod_int)
      ultimately show ?thesis by (simp add: algebra_simps)
    qed
    finally show ?thesis .
  qed
qed

lemma atoi_digits_stop: "\<not> isdigit (peek rest) \<Longrightarrow> atoi_digits acc rest = acc"
  by (cases rest) (simp_all add: peek_def)

lemma atoi_digits_show_nat_stop:
  "\<not> isdigit (peek rest) \<Longrightarrow> atoi_digits 0 (show_nat n @ rest) = int n"
  by (simp add: atoi_digits_show_nat atoi_digits_stop)

lemma isdigit_not_space: "isdigit c \<Longrightarrow> \<not> isspace c"
  by (auto simp: isdigit_def isspace_def)

lemma to_int32_id: "- (2 ^ 31) \<le> x \<Longrightarrow> x < 2 ^ 31 \<Longrightarrow> to_int32 x = x"
  by (simp add: to_int32_def)

lemma strtol_show_nat:
  assumes stop: "\<not> isdigit (peek rest)" and n: "n < 2 ^ 63"
  shows "strtol (show_nat n @ rest) = int n"
proof -
  obtain c cs where cs: "show_nat n = c # cs"
    using show_nat_nonempty [of n] by (cases "show_nat n") auto
  then have d: "isdigit c" using show_nat_digits [of c n] by simp
  then have c: "\<not> isspace c" "c \<noteq> CHR ''-''" "c \<noteq> CHR ''+''"
    by (auto simp: isdigit_def isspace_def)
  have "atoi_digits 0 (c # cs @ rest) = int n"
    using atoi_digits_show_nat_stop [OF stop, of n] cs by simp
  moreover have "int n < 2 ^ 63" using n by (simp flip: of_nat_less_iff)
  ultimately show ?thesis
    using cs c by (simp add: strtol_def Let_def del: atoi_digits.simps)
qed


lemma atoi_show_nat:
  "\<not> isdigit (peek rest) \<Longrightarrow> n < 2 ^ 31 \<Longrightarrow> atoi (show_nat n @ rest) = int n"
proof -
  assume stop: "\<not> isdigit (peek rest)" and n: "n < 2 ^ 31"
  then have "n < 2 ^ 63" by (rule_tac less_trans [of n "2 ^ 31"]) simp_all
  then have "strtol (show_nat n @ rest) = int n" using stop by (intro strtol_show_nat)
  moreover have "int n < 2 ^ 31" using n by (simp flip: of_nat_less_iff)
  ultimately show ?thesis by (simp add: atoi_def to_int32_id)
qed



lemma is_index_segment_bracket: "is_index_segment (CHR ''['' # s)"
  by (simp add: is_index_segment_def)




subsection \<open>Path navigation\<close>


lemma path_parse_not_root: "path_parse path_str = Some path \<Longrightarrow> path \<noteq> [] \<Longrightarrow> path_str \<noteq> ''$''"
  by (auto simp: path_parse_def)

lemma navigate_to_parent_single:
  "navigate_to_parent [segment] 0 parent = Some parent"
  by (subst navigate_to_parent.simps) simp







subsection \<open>Path mutation\<close>

lemma shift_down_eq:
  "i < length a \<Longrightarrow> shift_down a i = take i a @ drop (Suc i) a @ [last a]"
proof (induction a i rule: shift_down.induct)
  case (1 a i)
  show ?case
  proof (cases "i < length a - 1")
    case True
    let ?b = "a[i := a ! (i + 1)]"
    have "shift_down a i = shift_down ?b (i + 1)"
      using True by (subst shift_down.simps) simp
    also have "\<dots> = take (i + 1) ?b @ drop (Suc (i + 1)) ?b @ [last ?b]"
      using True "1.IH" by simp
    also have "take (i + 1) ?b = take i a @ [a ! (i + 1)]"
      using True by (simp add: take_Suc_conv_app_nth)
    also have "drop (Suc (i + 1)) ?b = drop (Suc (Suc i)) a"
      by simp
    also have "last ?b = last a"
      using True by (subst last_list_update) auto
    also have "(take i a @ [a ! (i + 1)]) @ drop (Suc (Suc i)) a @ [last a]
                 = take i a @ drop (Suc i) a @ [last a]"
      using True by (simp add: Cons_nth_drop_Suc)
    finally show ?thesis .
  next
    case False
    with "1.prems" have i: "i = length a - 1" and ne: "a \<noteq> []" by auto
    have "shift_down a i = a" using False by (subst shift_down.simps) simp
    moreover have "take i a @ drop (Suc i) a @ [last a] = a"
      using i ne by (metis One_nat_def butlast_conv_take append_butlast_last_id append_Nil
            drop_all Suc_pred length_greater_0_conv le_refl)
    ultimately show ?thesis by simp
  qed
qed

lemma remove_slot_eq: "i < length a \<Longrightarrow> remove_slot a i = take i a @ drop (Suc i) a"
  by (simp add: remove_slot_def shift_down_eq)

lemma resolve_index_less: "resolve_index segment n = Some i \<Longrightarrow> i < n"
  by (auto simp: resolve_index_def Let_def split: if_splits)

lemma path_delete_root_index:
  "path_parse path_str = Some [segment] \<Longrightarrow> is_index_segment segment \<Longrightarrow>
   toon_path_delete (TOON_ARRAY elements) path_str =
     (case resolve_index segment (length elements) of
        None \<Rightarrow> (- 1, TOON_ARRAY elements)
      | Some i \<Rightarrow> (0, TOON_ARRAY (take i elements @ drop (Suc i) elements)))"
  using path_parse_not_root [of path_str "[segment]"]
  by (auto simp: toon_path_delete_def navigate_to_parent_single remove_slot_eq
        dest: resolve_index_less split: option.splits)

text \<open>
  Claim C6. Deleting an in-bounds array index removes the addressed element and shifts the
  later elements down by one. At the root this holds: deleting \<open>$[1]\<close> from
  \<open>[10,20,30]\<close> gives \<open>[10,30]\<close> (and \<open>path_delete_root_index\<close> for any root array).
  Below the root it does not: on \<open>{"a":[10,20,30]}\<close> the path \<open>$.a[1]\<close> addresses
  the element 20, yet the delete returns -1 and leaves the tree as it was, because the loop
  that looks for the parent walks the whole path and arrives at the element itself.
\<close>

theorem path_delete_nested_index_fails:
  "toon_path_get (TOON_OBJECT [(''a'', TOON_ARRAY [TOON_NUMBER 10, TOON_NUMBER 20, TOON_NUMBER 30])])
       ''$.a[1]'' = Some (TOON_NUMBER 20)
   \<and> toon_path_delete (TOON_OBJECT [(''a'', TOON_ARRAY [TOON_NUMBER 10, TOON_NUMBER 20, TOON_NUMBER 30])])
       ''$.a[1]''
       = (- 1, TOON_OBJECT [(''a'', TOON_ARRAY [TOON_NUMBER 10, TOON_NUMBER 20, TOON_NUMBER 30])])
   \<and> toon_path_delete (TOON_ARRAY [TOON_NUMBER 10, TOON_NUMBER 20, TOON_NUMBER 30]) ''$[1]''
       = (0, TOON_ARRAY [TOON_NUMBER 10, TOON_NUMBER 30])"
  by code_simp






subsection \<open>Decoding the tabular example\<close>

text \<open>
  Claim C2. The text \<open>[2,]{id,name}:\<close>, \<open>1,Alice\<close>, \<open>2,Bob\<close> (three lines) should
  decode to a tabular array with headers \<open>id\<close>, \<open>name\<close> and two rows of two cells, whose
  JSON form is \<open>[{"id":1,"name":"Alice"},{"id":2,"name":"Bob"}]\<close>. The value parser
  does produce that tabular array from the text, and \<^verbatim>\<open>toon_to_json\<close> renders it as
  claimed. But \<^verbatim>\<open>toon_decode\<close> first looks for a colon not preceded by a closing
  bracket: the colon of the header line follows a closing brace, so the text is parsed as
  an object with the single key \<open>[2,]{id,name}\<close> and the value 1.
\<close>

theorem decode_tabular_example:
  "toon_decode (''[2,]{id,name}:'' @ [CHR 0x0A] @ ''1,Alice'' @ [CHR 0x0A] @ ''2,Bob'' @ [CHR 0x0A])
     = Inr (TOON_OBJECT [(''[2,]{id,name}'', TOON_NUMBER 1)])
   \<and> toon_to_json (TOON_OBJECT [(''[2,]{id,name}'', TOON_NUMBER 1)])
     = ''{\"[2,]{id,name}\":1}''
   \<and> parse_value 2 (''[2,]{id,name}:'' @ [CHR 0x0A] @ ''1,Alice'' @ [CHR 0x0A] @ ''2,Bob'' @ [CHR 0x0A])
     = Inr (TOON_TABULAR_ARRAY [''id'', ''name'']
              [[TOON_NUMBER 1, TOON_STRING ''Alice''], [TOON_NUMBER 2, TOON_STRING ''Bob'']], [])
   \<and> toon_to_json (TOON_TABULAR_ARRAY [''id'', ''name'']
              [[TOON_NUMBER 1, TOON_STRING ''Alice''], [TOON_NUMBER 2, TOON_STRING ''Bob'']])
     = ''[{\"id\":1,\"name\":\"Alice\"},{\"id\":2,\"name\":\"Bob\"}]''"
  by code_simp

subsection \<open>Merge\<close>

lemma toon_value_copy_id: "well_formed v \<Longrightarrow> toon_value_copy v = v"
proof (induction v rule: toon_value_copy.induct)
  case (5 elements)
  then show ?case by (simp add: list_all_iff map_idI)
next
  case (6 entries)
  then show ?case by (simp add: list_all_iff map_idI)
next
  case (7 headers rows)
  then show ?case by (simp add: list_all_iff map_idI)
qed simp_all

lemma merge_entry_eq:
  "merge_entry target key src =
     (case find_key key target of
        None \<Rightarrow> None
      | Some j \<Rightarrow>
          Some (target[j := (key, if is_object (snd (target ! j)) \<and> is_object src
                                  then snd (toon_merge (snd (target ! j)) src)
                                  else toon_value_copy src)]))"
  by (induction target) (auto split: option.splits)

lemma merge_entries_eq: "merge_entries target source = foldl merge_step_spec target source"
proof (induction source arbitrary: target)
  case Nil
  show ?case by simp
next
  case (Cons e source)
  obtain key src where e: "e = (key, src)" by (cases e)
  show ?case
    using Cons.IH
    by (simp add: e merge_entry_eq merge_step_spec_def split: option.splits)
qed

lemma toon_merge_not_object:
  "\<not> is_object target \<or> \<not> is_object source \<Longrightarrow> toon_merge target source = (- 1, target)"
  by (cases target; cases source) (simp_all add: is_object_def)

text \<open>
  Claim C4. \<^verbatim>\<open>toon_merge\<close> fails when either argument is not an object. Otherwise it
  handles the source entries in order, each by the merge step of the specification:
  recursive merge when the target has an entry of that name and both values are objects,
  replacement by a deep copy when it has such an entry otherwise, and a deep copy appended
  under the copied key when it has none. A deep copy is equal to its original. Merging
  \<open>{"a":{"x":1}}\<close> into \<open>{"a":{"y":2},"b":3}\<close> yields \<open>{"a":{"y":2,"x":1},"b":3}\<close>.
\<close>

theorem toon_merge_characterisation:
  "(\<not> is_object target \<or> \<not> is_object source \<longrightarrow> toon_merge target source = (- 1, target))
   \<and> toon_merge (TOON_OBJECT t) (TOON_OBJECT s) = (0, TOON_OBJECT (foldl merge_step_spec t s))
   \<and> (well_formed v \<longrightarrow> toon_value_copy v = v)
   \<and> toon_merge (TOON_OBJECT [(''a'', TOON_OBJECT [(''y'', TOON_NUMBER 2)]), (''b'', TOON_NUMBER 3)])
                 (TOON_OBJECT [(''a'', TOON_OBJECT [(''x'', TOON_NUMBER 1)])])
       = (0, TOON_OBJECT [(''a'', TOON_OBJECT [(''y'', TOON_NUMBER 2), (''x'', TOON_NUMBER 1)]),
                          (''b'', TOON_NUMBER 3)])"
proof (intro conjI impI)
  assume "\<not> is_object target \<or> \<not> is_object source"
  then show "toon_merge target source = (- 1, target)" by (rule toon_merge_not_object)
next
  show "toon_merge (TOON_OBJECT t) (TOON_OBJECT s) = (0, TOON_OBJECT (foldl merge_step_spec t s))"
    by (simp add: merge_entries_eq)
next
  assume "well_formed v"
  then show "toon_value_copy v = v" by (rule toon_value_copy_id)
next
  show "toon_merge (TOON_OBJECT [(''a'', TOON_OBJECT [(''y'', TOON_NUMBER 2)]), (''b'', TOON_NUMBER 3)])
                 (TOON_OBJECT [(''a'', TOON_OBJECT [(''x'', TOON_NUMBER 1)])])
       = (0, TOON_OBJECT [(''a'', TOON_OBJECT [(''y'', TOON_NUMBER 2), (''x'', TOON_NUMBER 1)]),
                          (''b'', TOON_NUMBER 3)])"
    by code_simp
qed

theorem toon_merge_characterisation_witness:
  "\<not> is_object (TOON_NUMBER 1)
   \<and> toon_merge (TOON_NUMBER 1) (TOON_OBJECT []) = (- 1, TOON_NUMBER 1)
   \<and> well_formed (TOON_ARRAY [TOON_NUMBER 1])
   \<and> toon_value_copy (TOON_ARRAY [TOON_NUMBER 1]) = TOON_ARRAY [TOON_NUMBER 1]"
proof -
  have a: "\<not> is_object (TOON_NUMBER 1)" by code_simp
  have b: "well_formed (TOON_ARRAY [TOON_NUMBER 1])" by code_simp
  show ?thesis
    using a b toon_merge_characterisation [where target = "TOON_NUMBER 1" and source = "TOON_OBJECT []"
        and v = "TOON_ARRAY [TOON_NUMBER 1]"]
    by blast
qed

subsection \<open>Promotion of JSON arrays\<close>

lemma same_length_objects_iff:
  "same_length_objects n es \<longleftrightarrow> list_all (\<lambda>e. is_object e \<and> length (object_entries e) = n) es"
proof (induction es)
  case Nil
  show ?case by simp
next
  case (Cons e es)
  show ?case
  proof (cases e)
    case (TOON_OBJECT x)
    then show ?thesis using Cons by (simp add: is_object_def object_entries_def)
  qed (simp_all add: is_object_def)
qed

lemma map_nth_fst: "map (\<lambda>i. fst (xs ! i)) [0..<length xs] = map fst xs"
  by (rule nth_equalityI) simp_all

lemma map_nth_snd: "length xs = n \<Longrightarrow> map (\<lambda>i. snd (xs ! i)) [0..<n] = map snd xs"
  by (rule nth_equalityI) simp_all

lemma promote_array_eq:
  "promote_array elements =
     (if promotes elements
      then TOON_TABULAR_ARRAY (map fst (object_entries (hd elements)))
                              (map (\<lambda>e. map snd (object_entries e)) elements)
      else TOON_ARRAY elements)"
proof (cases elements)
  case Nil
  then show ?thesis by (simp add: promote_array_def promotes_def)
next
  case (Cons e others)
  show ?thesis
  proof (cases e)
    case (TOON_OBJECT first)
    have rows: "promotes elements \<Longrightarrow>
          map (\<lambda>row. map (\<lambda>col. snd (object_entries row ! col)) [0..<length first]) elements
        = map (\<lambda>e. map snd (object_entries e)) elements"
      using Cons TOON_OBJECT
      by (auto simp: promotes_def list_all_iff object_entries_def intro!: map_nth_snd)
    have cond: "promotes elements \<longleftrightarrow>
          length elements > 1 \<and> same_length_objects (length first) others \<and> length first > 0"
    proof -
      have "length elements > 1 \<longleftrightarrow> others \<noteq> []" using Cons by (cases others) auto
      moreover have "length elements \<ge> 2 \<longleftrightarrow> others \<noteq> []" using Cons by (cases others) auto
      moreover have "hd elements = TOON_OBJECT first" using Cons TOON_OBJECT by simp
      ultimately show ?thesis
        using Cons TOON_OBJECT
        by (simp add: promotes_def same_length_objects_iff list_all_iff object_entries_def
              is_object_def) blast
    qed
    show ?thesis
      using Cons TOON_OBJECT rows cond
      by (auto simp: promote_array_def Let_def map_nth_fst object_entries_def)
  qed (use Cons in \<open>auto simp: promote_array_def promotes_def is_object_def\<close>)
qed

text \<open>
  Claim C3, as stated: a JSON array is promoted exactly when it has two or more elements,
  all objects, all with as many entries as the first. It is false for objects without
  entries: \<open>[{},{}]\<close> has two elements, both objects with no entry, and stays a simple
  array.
\<close>

theorem json_empty_objects_counterexample:
  "json_to_toon ''[{},{}]'' = Inr (TOON_ARRAY [TOON_OBJECT [], TOON_OBJECT []])"
  by code_simp

text \<open>
  Claim C3, amended. The end of \<^verbatim>\<open>parse_json_array\<close> turns the parsed elements into a
  tabular array exactly when there are two or more, every one is an object, every one
  has as many entries as the first, and the first has at least one entry. The headers are
  then the keys of the first object and each row holds the values of one object in their
  order, whatever their keys. Otherwise the elements remain a simple array. So objects with
  different keys and equal entry counts become rows, and a single object or objects of
  different entry counts do not.
\<close>

theorem json_array_promotion:
  "promote_array elements =
     (if promotes elements
      then TOON_TABULAR_ARRAY (map fst (object_entries (hd elements)))
                              (map (\<lambda>e. map snd (object_entries e)) elements)
      else TOON_ARRAY elements)
   \<and> json_to_toon ''[{\"a\":1,\"b\":2},{\"c\":3,\"d\":4}]''
       = Inr (TOON_TABULAR_ARRAY [''a'', ''b'']
                [[TOON_NUMBER 1, TOON_NUMBER 2], [TOON_NUMBER 3, TOON_NUMBER 4]])
   \<and> json_to_toon ''[{\"a\":1}]'' = Inr (TOON_ARRAY [TOON_OBJECT [(''a'', TOON_NUMBER 1)]])
   \<and> json_to_toon ''[{\"a\":1},{\"a\":1,\"b\":2}]''
       = Inr (TOON_ARRAY [TOON_OBJECT [(''a'', TOON_NUMBER 1)],
                          TOON_OBJECT [(''a'', TOON_NUMBER 1), (''b'', TOON_NUMBER 2)]])
   \<and> json_to_toon ''[{\"a\":1},2]''
       = Inr (TOON_ARRAY [TOON_OBJECT [(''a'', TOON_NUMBER 1)], TOON_NUMBER 2])"
proof (intro conjI)
  show "promote_array elements =
     (if promotes elements
      then TOON_TABULAR_ARRAY (map fst (object_entries (hd elements)))
                              (map (\<lambda>e. map snd (object_entries e)) elements)
      else TOON_ARRAY elements)"
    by (rule promote_array_eq)
qed code_simp+

subsection \<open>The cap of 256 children\<close>

lemma skip_whitespace_Cons:
  "skip_whitespace (c # s) = (if isspace c then skip_whitespace s else c # s)"
  by (simp add: skip_whitespace_def)

lemma skip_whitespace_Nil: "skip_whitespace [] = []"
  by (simp add: skip_whitespace_def)

lemma peek_skipped: "skip_whitespace t = t \<Longrightarrow> \<not> isspace (peek t)"
proof (cases t)
  case Nil
  then show ?thesis by (simp add: peek_def isspace_def)
next
  case (Cons c r)
  assume sk: "skip_whitespace t = t"
  show ?thesis
  proof
    assume "isspace (peek t)"
    then have "isspace c" using Cons by (simp add: peek_def)
    then have "skip_whitespace t = dropWhile isspace r" using Cons by (simp add: skip_whitespace_def)
    then have "length t \<le> length r" using sk length_dropWhile_le [of isspace r] by simp
    then show False using Cons by simp
  qed
qed

lemma peek_skipped_newline: "skip_whitespace t = t \<Longrightarrow> peek t \<noteq> CHR 0x0A"
  using peek_skipped [of t] by (auto simp: isspace_def)

lemma parse_value_x:
  "parse_value (Suc f) (CHR ''x'' # CHR 0x0A # s) = Inr (TOON_STRING ''x'', CHR 0x0A # s)"
  by (simp add: skip_whitespace_Cons isspace_def peek_def isdigit_def parse_unquoted_string_def
        trim_right_def keyword_value_def)

lemma parse_value_y:
  "parse_value (Suc f) (CHR ''y'' # CHR 0x0A # s) = Inr (TOON_STRING ''y'', CHR 0x0A # s)"
  by (simp add: skip_whitespace_Cons isspace_def peek_def isdigit_def parse_unquoted_string_def
        trim_right_def keyword_value_def)

lemma skip_lines:
  "skip_whitespace rest = rest \<Longrightarrow>
   skip_whitespace (concat (replicate n (''k:x'' @ [CHR 0x0A])) @ rest)
     = concat (replicate n (''k:x'' @ [CHR 0x0A])) @ rest"
  by (cases n) (simp_all add: skip_whitespace_Cons isspace_def)

lemma parse_entries_step:
  "skip_whitespace tail = tail \<Longrightarrow>
   parse_entries (Suc f) (Suc k) ((''k:x'' @ [CHR 0x0A]) @ tail) =
     (case parse_entries (Suc f) k tail of
        Inl e \<Rightarrow> Inl e
      | Inr (es, r) \<Rightarrow> Inr ((''k'', TOON_STRING ''x'') # es, r))"
  apply (subst parse_entries.simps)
  apply (frule peek_skipped_newline)
  apply (simp add: parse_value_x skip_whitespace_Cons isspace_def trim_right_def
           peek_def advance_def del: parse_value.simps)
  apply (simp add: isspace_def split: sum.splits)
  done

lemma parse_entries_le:
  "n \<le> k \<Longrightarrow> skip_whitespace rest = rest \<Longrightarrow>
   parse_entries (Suc f) k (concat (replicate n (''k:x'' @ [CHR 0x0A])) @ rest) =
     (case parse_entries (Suc f) (k - n) rest of
        Inl e \<Rightarrow> Inl e
      | Inr (es, r) \<Rightarrow> Inr (replicate n (''k'', TOON_STRING ''x'') @ es, r))"
proof (induction n arbitrary: k)
  case 0
  show ?case by (simp split: sum.splits)
next
  case (Suc n)
  then obtain k' where k: "k = Suc k'" and nk: "n \<le> k'" by (cases k) auto
  let ?tail = "concat (replicate n (''k:x'' @ [CHR 0x0A])) @ rest"
  have "parse_entries (Suc f) (Suc k') ((''k:x'' @ [CHR 0x0A]) @ ?tail) =
        (case parse_entries (Suc f) k' ?tail of
           Inl e \<Rightarrow> Inl e
         | Inr (es, r) \<Rightarrow> Inr ((''k'', TOON_STRING ''x'') # es, r))"
    by (rule parse_entries_step) (rule skip_lines [OF Suc.prems(2)])
  then show ?case
    using Suc.IH [OF nk Suc.prems(2)] k
    by (simp split: sum.splits)
qed

lemma parse_entries_ge:
  "k \<le> n \<Longrightarrow> skip_whitespace rest = rest \<Longrightarrow>
   parse_entries (Suc f) k (concat (replicate n (''k:x'' @ [CHR 0x0A])) @ rest) =
     Inr (replicate k (''k'', TOON_STRING ''x''),
          concat (replicate (n - k) (''k:x'' @ [CHR 0x0A])) @ rest)"
proof (induction k arbitrary: n)
  case 0
  show ?case by simp
next
  case (Suc k)
  then obtain n' where n: "n = Suc n'" and kn: "k \<le> n'" by (cases n) auto
  let ?tail = "concat (replicate n' (''k:x'' @ [CHR 0x0A])) @ rest"
  have "parse_entries (Suc f) (Suc k) ((''k:x'' @ [CHR 0x0A]) @ ?tail) =
        (case parse_entries (Suc f) k ?tail of
           Inl e \<Rightarrow> Inl e
         | Inr (es, r) \<Rightarrow> Inr ((''k'', TOON_STRING ''x'') # es, r))"
    by (rule parse_entries_step) (rule skip_lines [OF Suc.prems(2)])
  then show ?case
    using Suc.IH [OF kn Suc.prems(2)] n by simp
qed

lemma looks_like_object_lines:
  "looks_like_object (CHR '' '') (concat (replicate n (''k:x'' @ [CHR 0x0A])) @ ''z:y'' @ [CHR 0x0A])"
  by (cases n) simp_all

lemma toon_object_of_lines:
  "toon_decode (concat (replicate n (''k:x'' @ [CHR 0x0A])) @ ''z:y'' @ [CHR 0x0A]) =
     Inr (TOON_OBJECT (if n < 256 then replicate n (''k'', TOON_STRING ''x'') @ [(''z'', TOON_STRING ''y'')]
                       else replicate 256 (''k'', TOON_STRING ''x'')))"
proof -
  let ?last = "''z:y'' @ [CHR 0x0A]"
  let ?s = "concat (replicate n (''k:x'' @ [CHR 0x0A])) @ ?last"
  define f where "f = length ?s"
  have sk: "skip_whitespace ?last = ?last"
    by (simp add: skip_whitespace_Cons isspace_def)
  have sks: "skip_whitespace ?s = ?s"
    by (rule skip_lines [OF sk])
  have dec: "toon_decode ?s =
      (case parse_entries (Suc f) 256 ?s of
         Inl e \<Rightarrow> Inl e
       | Inr (entries, rest) \<Rightarrow> Inr (TOON_OBJECT entries))"
    using looks_like_object_lines [of n] sks
    by (simp add: toon_decode_def parse_object_def f_def Let_def split: sum.splits
          del: parse_entries.simps)
  show ?thesis
  proof (cases "n < 256")
    case True
    then have le: "n \<le> 256" by simp
    obtain k where k: "256 - n = Suc k" using True by (cases "256 - n") auto
    have last: "parse_entries (Suc f) (Suc k) ?last = Inr ([(''z'', TOON_STRING ''y'')], [])"
      apply (subst parse_entries.simps)
      apply (simp add: parse_value_y peek_def advance_def skip_whitespace_Cons isspace_def
               trim_right_def skip_whitespace_Nil del: parse_value.simps parse_entries.simps)
      apply (cases k)
       apply (simp_all add: peek_def isspace_def)
      done
    have "parse_entries (Suc f) 256 ?s
            = Inr (replicate n (''k'', TOON_STRING ''x'') @ [(''z'', TOON_STRING ''y'')], [])"
      using parse_entries_le [OF le sk, of f] k last by simp
    then show ?thesis using True dec by simp
  next
    case False
    then have ge: "256 \<le> n" by simp
    have "parse_entries (Suc f) 256 ?s
            = Inr (replicate 256 (''k'', TOON_STRING ''x''),
                   concat (replicate (n - 256) (''k:x'' @ [CHR 0x0A])) @ ?last)"
      by (rule parse_entries_ge [OF ge sk])
    then show ?thesis using False dec by simp
  qed
qed

lemma parse_entries_length:
  "parse_entries fuel k p = Inr (es, r) \<Longrightarrow> length es \<le> k"
proof (induction k arbitrary: p es r)
  case 0
  then show ?case by simp
next
  case (Suc k)
  then show ?case
    by (auto simp: Let_def split: if_splits sum.splits prod.splits)
qed

lemma parse_value_not_object:
  "parse_value fuel p = Inr (v, r) \<Longrightarrow> \<not> is_object v"
proof (cases fuel)
  case 0
  assume "parse_value fuel p = Inr (v, r)"
  with 0 show ?thesis by simp
next
  case (Suc f)
  assume "parse_value fuel p = Inr (v, r)"
  with Suc show ?thesis
    by (auto simp: Let_def is_object_def parse_number_def keyword_value_def parse_tabular_array_def
          split: if_splits sum.splits prod.splits)
qed

lemma toon_decode_object_bound:
  "toon_decode s = Inr (TOON_OBJECT es) \<Longrightarrow> length es \<le> 256"
proof -
  assume d: "toon_decode s = Inr (TOON_OBJECT es)"
  show ?thesis
  proof (cases "looks_like_object (CHR '' '') (skip_whitespace s)")
    case True
    with d obtain r where "parse_entries (Suc (length s)) 256 (skip_whitespace s) = Inr (es, r)"
      by (auto simp: toon_decode_def parse_object_def Let_def split: sum.splits prod.splits)
    then show ?thesis by (rule parse_entries_length)
  next
    case False
    with d obtain r where "parse_value (Suc (length s)) (skip_whitespace s) = Inr (TOON_OBJECT es, r)"
      by (auto simp: toon_decode_def Let_def split: sum.splits prod.splits simp del: parse_value.simps)
    then have "\<not> is_object (TOON_OBJECT es)" by (rule parse_value_not_object)
    then show ?thesis by (simp add: is_object_def)
  qed
qed

lemma skip_json_whitespace_Cons:
  "skip_json_whitespace (c # s) = (if isspace c then skip_json_whitespace s else c # s)"
  by (simp add: skip_json_whitespace_def)

lemma skip_json_whitespace_Nil: "skip_json_whitespace [] = []"
  by (simp add: skip_json_whitespace_def)

lemma parse_json_value_null:
  "parse_json_value (Suc f) (CHR ''n'' # CHR ''u'' # CHR ''l'' # CHR ''l'' # s) = Inr (TOON_NULL, s)"
  by (simp add: skip_json_whitespace_def isspace_def peek_def json_match_def)

lemma skip_nulls:
  "skip_json_whitespace rest = rest \<Longrightarrow>
   skip_json_whitespace (concat (replicate n ''null,'') @ rest) = concat (replicate n ''null,'') @ rest"
  by (cases n) (simp_all add: skip_json_whitespace_Cons isspace_def)

lemma parse_json_elements_null_step:
  "skip_json_whitespace tail = tail \<Longrightarrow>
   parse_json_elements (Suc f) (Suc k) (''null,'' @ tail) =
     (case parse_json_elements (Suc f) k tail of
        Inl e \<Rightarrow> Inl e
      | Inr (vs, r) \<Rightarrow> Inr (TOON_NULL # vs, r))"
  apply (subst parse_json_elements.simps)
  apply (simp add: parse_json_value_null peek_def advance_def skip_json_whitespace_Cons isspace_def
           del: parse_json_value.simps)
  done

lemma parse_json_elements_nulls_le:
  "n \<le> k \<Longrightarrow> skip_json_whitespace rest = rest \<Longrightarrow>
   parse_json_elements (Suc f) k (concat (replicate n ''null,'') @ rest) =
     (case parse_json_elements (Suc f) (k - n) rest of
        Inl e \<Rightarrow> Inl e
      | Inr (vs, r) \<Rightarrow> Inr (replicate n TOON_NULL @ vs, r))"
proof (induction n arbitrary: k)
  case 0
  show ?case by (simp split: sum.splits)
next
  case (Suc n)
  then obtain k' where k: "k = Suc k'" and nk: "n \<le> k'" by (cases k) auto
  let ?tail = "concat (replicate n ''null,'') @ rest"
  have "parse_json_elements (Suc f) (Suc k') (''null,'' @ ?tail) =
        (case parse_json_elements (Suc f) k' ?tail of
           Inl e \<Rightarrow> Inl e
         | Inr (vs, r) \<Rightarrow> Inr (TOON_NULL # vs, r))"
    by (rule parse_json_elements_null_step) (rule skip_nulls [OF Suc.prems(2)])
  then show ?case
    using Suc.IH [OF nk Suc.prems(2)] k
    by (simp split: sum.splits)
qed

lemma parse_json_elements_nulls_ge:
  "k \<le> n \<Longrightarrow> skip_json_whitespace rest = rest \<Longrightarrow>
   parse_json_elements (Suc f) k (concat (replicate n ''null,'') @ rest) =
     Inr (replicate k TOON_NULL, concat (replicate (n - k) ''null,'') @ rest)"
proof (induction k arbitrary: n)
  case 0
  show ?case by simp
next
  case (Suc k)
  then obtain n' where n: "n = Suc n'" and kn: "k \<le> n'" by (cases n) auto
  let ?tail = "concat (replicate n' ''null,'') @ rest"
  have "parse_json_elements (Suc f) (Suc k) (''null,'' @ ?tail) =
        (case parse_json_elements (Suc f) k ?tail of
           Inl e \<Rightarrow> Inl e
         | Inr (vs, r) \<Rightarrow> Inr (TOON_NULL # vs, r))"
    by (rule parse_json_elements_null_step) (rule skip_nulls [OF Suc.prems(2)])
  then show ?case
    using Suc.IH [OF kn Suc.prems(2)] n by simp
qed

lemma json_array_of_nulls:
  "json_to_toon (''['' @ concat (replicate n ''null,'') @ ''null]'') =
     (if n < 256 then Inr (TOON_ARRAY (replicate (Suc n) TOON_NULL)) else Inl SyntaxError)"
proof -
  let ?body = "concat (replicate n ''null,'') @ ''null]''"
  let ?s = "CHR ''['' # ?body"
  define f where "f = length ?body"
  have sk: "skip_json_whitespace ''null]'' = ''null]''"
    by (simp add: skip_json_whitespace_Cons isspace_def)
  have skb: "skip_json_whitespace ?body = ?body"
    by (rule skip_nulls [OF sk])
  have f: "f = Suc (length ?body - 1)" by (simp add: f_def)
  have top: "parse_json_value (Suc (Suc f)) ?s = parse_json_array (Suc f) ?s"
    by (simp add: skip_json_whitespace_Cons isspace_def peek_def del: parse_json_array.simps)
  have arr: "parse_json_array (Suc f) ?s =
        (case parse_json_elements (Suc f) 256 ?body of
           Inl e \<Rightarrow> Inl e
         | Inr (elements, p2) \<Rightarrow>
             (case expect (CHR '']'') p2 of
                Inl e \<Rightarrow> Inl e
              | Inr p3 \<Rightarrow> Inr (promote_array elements, p3)))"
    by (simp add: expect_def peek_def advance_def skb del: parse_json_elements.simps)
  show ?thesis
  proof (cases "n < 256")
    case True
    then have le: "n \<le> 256" by simp
    obtain k where k: "256 - n = Suc k" using True by (cases "256 - n") auto
    have last: "parse_json_elements (Suc f) (Suc k) ''null]'' = Inr ([TOON_NULL], '']'')"
      apply (subst parse_json_elements.simps)
      apply (simp add: parse_json_value_null peek_def skip_json_whitespace_Cons isspace_def
               del: parse_json_value.simps parse_json_elements.simps)
      apply (cases k)
       apply (simp_all add: peek_def)
      done
    have "parse_json_elements (Suc f) 256 ?body = Inr (replicate n TOON_NULL @ [TOON_NULL], '']'')"
      using parse_json_elements_nulls_le [OF le sk, of f] k last by simp
    moreover have "replicate n TOON_NULL @ [TOON_NULL] = replicate (Suc n) TOON_NULL"
      by (simp add: replicate_append_same)
    moreover have "promote_array (replicate (Suc n) TOON_NULL) = TOON_ARRAY (replicate (Suc n) TOON_NULL)"
      by (simp add: promote_array_def)
    ultimately have "parse_json_array (Suc f) ?s = Inr (TOON_ARRAY (replicate (Suc n) TOON_NULL), [])"
      using arr by (simp add: expect_def peek_def advance_def del: parse_json_array.simps replicate.simps)
    then show ?thesis
      using True top by (simp add: json_to_toon_def f_def del: parse_json_value.simps parse_json_array.simps replicate.simps)
  next
    case False
    then have ge: "256 \<le> n" by simp
    have "parse_json_elements (Suc f) 256 ?body
            = Inr (replicate 256 TOON_NULL, concat (replicate (n - 256) ''null,'') @ ''null]'')"
      by (rule parse_json_elements_nulls_ge [OF ge sk])
    moreover have "expect (CHR '']'') (concat (replicate (n - 256) ''null,'') @ ''null]'') = Inl SyntaxError"
      by (cases "n - 256") (simp_all add: expect_def peek_def)
    ultimately have "parse_json_array (Suc f) ?s = Inl SyntaxError"
      using arr by (simp del: parse_json_array.simps)
    then show ?thesis
      using False top by (simp add: json_to_toon_def f_def del: parse_json_value.simps parse_json_array.simps)
  qed
qed

lemma parse_json_string_k:
  "parse_json_string (CHR 0x22 # CHR ''k'' # CHR 0x22 # s) = Inr (''k'', s)"
  by (simp add: parse_json_string_def expect_def peek_def advance_def)

lemma skip_entries:
  "skip_json_whitespace rest = rest \<Longrightarrow>
   skip_json_whitespace (concat (replicate n ''\"k\":null,'') @ rest)
     = concat (replicate n ''\"k\":null,'') @ rest"
  by (cases n) (simp_all add: skip_json_whitespace_Cons isspace_def)

lemma parse_json_entries_step:
  "skip_json_whitespace tail = tail \<Longrightarrow>
   parse_json_entries (Suc f) (Suc k) (''\"k\":null,'' @ tail) =
     (case parse_json_entries (Suc f) k tail of
        Inl e \<Rightarrow> Inl e
      | Inr (es, r) \<Rightarrow> Inr ((''k'', TOON_NULL) # es, r))"
  apply (subst parse_json_entries.simps)
  apply (simp add: parse_json_string_k parse_json_value_null peek_def advance_def expect_def
           skip_json_whitespace_Cons isspace_def del: parse_json_value.simps)
  done

lemma parse_json_entries_le:
  "n \<le> k \<Longrightarrow> skip_json_whitespace rest = rest \<Longrightarrow>
   parse_json_entries (Suc f) k (concat (replicate n ''\"k\":null,'') @ rest) =
     (case parse_json_entries (Suc f) (k - n) rest of
        Inl e \<Rightarrow> Inl e
      | Inr (es, r) \<Rightarrow> Inr (replicate n (''k'', TOON_NULL) @ es, r))"
proof (induction n arbitrary: k)
  case 0
  show ?case by (simp split: sum.splits)
next
  case (Suc n)
  then obtain k' where k: "k = Suc k'" and nk: "n \<le> k'" by (cases k) auto
  let ?tail = "concat (replicate n ''\"k\":null,'') @ rest"
  have "parse_json_entries (Suc f) (Suc k') (''\"k\":null,'' @ ?tail) =
        (case parse_json_entries (Suc f) k' ?tail of
           Inl e \<Rightarrow> Inl e
         | Inr (es, r) \<Rightarrow> Inr ((''k'', TOON_NULL) # es, r))"
    by (rule parse_json_entries_step) (rule skip_entries [OF Suc.prems(2)])
  then show ?case
    using Suc.IH [OF nk Suc.prems(2)] k
    by (simp split: sum.splits)
qed

lemma parse_json_entries_ge:
  "k \<le> n \<Longrightarrow> skip_json_whitespace rest = rest \<Longrightarrow>
   parse_json_entries (Suc f) k (concat (replicate n ''\"k\":null,'') @ rest) =
     Inr (replicate k (''k'', TOON_NULL), concat (replicate (n - k) ''\"k\":null,'') @ rest)"
proof (induction k arbitrary: n)
  case 0
  show ?case by simp
next
  case (Suc k)
  then obtain n' where n: "n = Suc n'" and kn: "k \<le> n'" by (cases n) auto
  let ?tail = "concat (replicate n' ''\"k\":null,'') @ rest"
  have "parse_json_entries (Suc f) (Suc k) (''\"k\":null,'' @ ?tail) =
        (case parse_json_entries (Suc f) k ?tail of
           Inl e \<Rightarrow> Inl e
         | Inr (es, r) \<Rightarrow> Inr ((''k'', TOON_NULL) # es, r))"
    by (rule parse_json_entries_step) (rule skip_entries [OF Suc.prems(2)])
  then show ?case
    using Suc.IH [OF kn Suc.prems(2)] n by simp
qed

lemma json_object_of_nulls:
  "json_to_toon (''{'' @ concat (replicate n ''\"k\":null,'') @ ''\"k\":null}'') =
     (if n < 256 then Inr (TOON_OBJECT (replicate (Suc n) (''k'', TOON_NULL)))
      else Inl SyntaxError)"
proof -
  let ?body = "concat (replicate n ''\"k\":null,'') @ ''\"k\":null}''"
  let ?s = "CHR ''{'' # ?body"
  define f where "f = length ?body"
  have sk: "skip_json_whitespace ''\"k\":null}'' = ''\"k\":null}''"
    by (simp add: skip_json_whitespace_Cons isspace_def)
  have skb: "skip_json_whitespace ?body = ?body"
    by (rule skip_entries [OF sk])
  have top: "parse_json_value (Suc (Suc f)) ?s = parse_json_object (Suc f) ?s"
    by (simp add: skip_json_whitespace_Cons isspace_def peek_def del: parse_json_object.simps)
  have obj: "parse_json_object (Suc f) ?s =
        (case parse_json_entries (Suc f) 256 ?body of
           Inl e \<Rightarrow> Inl e
         | Inr (entries, p2) \<Rightarrow>
             (case expect (CHR ''}'') p2 of
                Inl e \<Rightarrow> Inl e
              | Inr p3 \<Rightarrow> Inr (TOON_OBJECT entries, p3)))"
    by (simp add: expect_def peek_def advance_def skb del: parse_json_entries.simps)
  show ?thesis
  proof (cases "n < 256")
    case True
    then have le: "n \<le> 256" by simp
    obtain k where k: "256 - n = Suc k" using True by (cases "256 - n") auto
    have last: "parse_json_entries (Suc f) (Suc k) ''\"k\":null}'' = Inr ([(''k'', TOON_NULL)], ''}'')"
      apply (subst parse_json_entries.simps)
      apply (simp add: parse_json_string_k parse_json_value_null peek_def advance_def expect_def
               skip_json_whitespace_Cons isspace_def
               del: parse_json_value.simps parse_json_entries.simps)
      apply (cases k)
       apply (simp_all add: peek_def)
      done
    have "parse_json_entries (Suc f) 256 ?body
            = Inr (replicate n (''k'', TOON_NULL) @ [(''k'', TOON_NULL)], ''}'')"
      using parse_json_entries_le [OF le sk, of f] k last by simp
    moreover have "replicate n (''k'', TOON_NULL) @ [(''k'', TOON_NULL)]
                     = replicate (Suc n) (''k'', TOON_NULL)"
      by (simp add: replicate_append_same)
    ultimately have "parse_json_object (Suc f) ?s
                       = Inr (TOON_OBJECT (replicate (Suc n) (''k'', TOON_NULL)), [])"
      using obj by (simp add: expect_def peek_def advance_def
                      del: parse_json_object.simps replicate.simps)
    then show ?thesis
      using True top
      by (simp add: json_to_toon_def f_def
            del: parse_json_value.simps parse_json_object.simps replicate.simps)
  next
    case False
    then have ge: "256 \<le> n" by simp
    have "parse_json_entries (Suc f) 256 ?body
            = Inr (replicate 256 (''k'', TOON_NULL),
                   concat (replicate (n - 256) ''\"k\":null,'') @ ''\"k\":null}'')"
      by (rule parse_json_entries_ge [OF ge sk])
    moreover have "expect (CHR ''}'') (concat (replicate (n - 256) ''\"k\":null,'') @ ''\"k\":null}'')
                     = Inl SyntaxError"
      by (cases "n - 256") (simp_all add: expect_def peek_def)
    ultimately have "parse_json_object (Suc f) ?s = Inl SyntaxError"
      using obj by (simp del: parse_json_object.simps)
    then show ?thesis
      using False top
      by (simp add: json_to_toon_def f_def del: parse_json_value.simps parse_json_object.simps)
  qed
qed

lemma promote_array_bounded:
  assumes "length elements \<le> n" and "list_all (children_bounded n) elements"
  shows "children_bounded n (promote_array elements)"
proof (cases elements)
  case Nil
  then show ?thesis by (simp add: promote_array_def)
next
  case (Cons e others)
  show ?thesis
  proof (cases e)
    case (TOON_OBJECT first)
    have first: "length first \<le> n" "list_all (\<lambda>e. children_bounded n (snd e)) first"
      using assms Cons TOON_OBJECT by simp_all
    have rows: "same_length_objects (length first) others \<Longrightarrow>
        list_all (\<lambda>row. length row \<le> n \<and> list_all (children_bounded n) row)
          (map (\<lambda>row. map (\<lambda>col. snd (object_entries row ! col)) [0..<length first]) elements)"
    proof -
      assume same: "same_length_objects (length first) others"
      have all: "\<forall>row \<in> set elements. \<exists>es. row = TOON_OBJECT es \<and> length es = length first"
      proof
        fix row assume "row \<in> set elements"
        then have "row = e \<or> row \<in> set others" using Cons by auto
        moreover have "\<And>r. r \<in> set others \<Longrightarrow> \<exists>es. r = TOON_OBJECT es \<and> length es = length first"
          using same
        proof (induction others)
          case Nil
          then show ?case by simp
        next
          case (Cons a others)
          then show ?case by (cases a) (auto split: if_splits)
        qed
        ultimately show "\<exists>es. row = TOON_OBJECT es \<and> length es = length first"
          using TOON_OBJECT by auto
      qed
      show ?thesis
        unfolding list_all_iff
      proof (intro ballI)
        fix r assume "r \<in> set (map (\<lambda>row. map (\<lambda>col. snd (object_entries row ! col)) [0..<length first]) elements)"
        then obtain row where row: "row \<in> set elements"
          and r: "r = map (\<lambda>col. snd (object_entries row ! col)) [0..<length first]" by auto
        from all row obtain es where es: "row = TOON_OBJECT es" "length es = length first" by blast
        have cb: "children_bounded n row" using assms(2) row by (simp add: list_all_iff)
        then have ces: "\<forall>x \<in> set es. children_bounded n (snd x)" using es by (simp add: list_all_iff)
        have "length r \<le> n" using r first by simp
        moreover have "\<forall>c \<in> set r. children_bounded n c"
        proof
          fix c assume "c \<in> set r"
          then obtain col where "col < length first" "c = snd (es ! col)"
            using r es by (auto simp: object_entries_def)
          then show "children_bounded n c" using ces es by (metis nth_mem)
        qed
        ultimately show "length r \<le> n \<and> (\<forall>c \<in> set r. children_bounded n c)" by simp
      qed
    qed
    show ?thesis
      using assms Cons TOON_OBJECT first rows
      by (auto simp: promote_array_def Let_def)
  qed (use assms Cons in \<open>auto simp: promote_array_def\<close>)
qed


lemma parse_json_bounded:
  "\<forall>v r. parse_json_value fuel p = Inr (v, r) \<longrightarrow> children_bounded 256 v"
  "\<forall>v r. parse_json_array fuel p = Inr (v, r) \<longrightarrow> children_bounded 256 v"
  "\<forall>vs r. parse_json_elements fuel k p = Inr (vs, r)
      \<longrightarrow> length vs \<le> k \<and> list_all (children_bounded 256) vs"
  "\<forall>v r. parse_json_object fuel p = Inr (v, r) \<longrightarrow> children_bounded 256 v"
  "\<forall>es r. parse_json_entries fuel k' p = Inr (es, r)
      \<longrightarrow> length es \<le> k' \<and> list_all (\<lambda>e. children_bounded 256 (snd e)) es"
proof (induction fuel p and fuel p and fuel k p and fuel p and fuel k' p
       rule: parse_json_value_parse_json_array_parse_json_elements_parse_json_object_parse_json_entries.induct)
  case (1 p)
  show ?case by simp
next
  case (2 fuel p0)
  show ?case
  proof (intro allI impI)
    fix v r
    assume a: "parse_json_value (Suc fuel) p0 = Inr (v, r)"
    let ?p = "skip_json_whitespace p0"
    consider (str) "peek ?p = CHR 0x22"
      | (obj) "peek ?p \<noteq> CHR 0x22" "peek ?p = CHR ''{''"
      | (arr) "peek ?p \<noteq> CHR 0x22" "peek ?p \<noteq> CHR ''{''" "peek ?p = CHR ''[''"
      | (other) "peek ?p \<noteq> CHR 0x22" "peek ?p \<noteq> CHR ''{''" "peek ?p \<noteq> CHR ''[''"
      by blast
    then show "children_bounded 256 v"
    proof cases
      case str
      with a show ?thesis by (auto simp: Let_def split: sum.splits)
    next
      case obj
      with a have "parse_json_object fuel ?p = Inr (v, r)"
        by (simp add: Let_def del: parse_json_object.simps)
      then show ?thesis using "2.IH"(1) [OF refl refl obj] by blast
    next
      case arr
      with a have "parse_json_array fuel ?p = Inr (v, r)"
        by (simp add: Let_def del: parse_json_array.simps)
      then show ?thesis using "2.IH"(2) [OF refl refl arr] by blast
    next
      case other
      with a show ?thesis
        by (auto simp: Let_def parse_json_number_def split: if_splits)
    qed
  qed
next
  case (3 fuel p)
  show ?case
  proof (intro allI impI)
    fix v r
    assume a: "parse_json_array fuel p = Inr (v, r)"
    then obtain b elements p2 where b: "expect (CHR ''['') p = Inr b"
      and e: "parse_json_elements fuel 256 (skip_json_whitespace b) = Inr (elements, p2)"
      and v: "v = promote_array elements"
      by (auto split: sum.splits prod.splits simp del: parse_json_elements.simps)
    from "3.IH" [OF b] e have "length elements \<le> 256 \<and> list_all (children_bounded 256) elements"
      by blast
    then show "children_bounded 256 v" using v promote_array_bounded by blast
  qed
next
  case (4 fuel p)
  show ?case by simp
next
  case (5 fuel k p)
  show ?case
  proof (intro allI impI)
    fix vs r
    assume a: "parse_json_elements fuel (Suc k) p = Inr (vs, r)"
    show "length vs \<le> Suc k \<and> list_all (children_bounded 256) vs"
    proof (cases "peek p = CHR '']'' \<or> peek p = CHR 0x00")
      case True
      with a show ?thesis by auto
    next
      case False
      with a obtain v p1 vs' where v: "parse_json_value fuel p = Inr (v, p1)"
        and rest: "parse_json_elements fuel k
                     (if peek (skip_json_whitespace p1) = CHR '',''
                      then skip_json_whitespace (advance (skip_json_whitespace p1))
                      else skip_json_whitespace p1) = Inr (vs', r)"
        and vs: "vs = v # vs'"
        by (auto simp: Let_def split: sum.splits prod.splits)
      have "children_bounded 256 v" using "5.IH"(1) [OF False] v by blast
      moreover have "length vs' \<le> k \<and> list_all (children_bounded 256) vs'"
        using "5.IH"(2) [OF False v refl refl refl] rest by blast
      ultimately show ?thesis using vs by simp
    qed
  qed
next
  case (6 fuel p)
  show ?case
  proof (intro allI impI)
    fix v r
    assume a: "parse_json_object fuel p = Inr (v, r)"
    then obtain b entries p2 where b: "expect (CHR ''{'') p = Inr b"
      and e: "parse_json_entries fuel 256 (skip_json_whitespace b) = Inr (entries, p2)"
      and v: "v = TOON_OBJECT entries"
      by (auto split: sum.splits prod.splits simp del: parse_json_entries.simps)
    from "6.IH" [OF b] e
    have "length entries \<le> 256 \<and> list_all (\<lambda>e. children_bounded 256 (snd e)) entries"
      by blast
    then show "children_bounded 256 v" using v by simp
  qed
next
  case (7 fuel p)
  show ?case by simp
next
  case (8 fuel k p)
  show ?case
  proof (intro allI impI)
    fix es r
    assume a: "parse_json_entries fuel (Suc k) p = Inr (es, r)"
    show "length es \<le> Suc k \<and> list_all (\<lambda>e. children_bounded 256 (snd e)) es"
    proof (cases "peek p = CHR ''}'' \<or> peek p = CHR 0x00")
      case True
      with a show ?thesis by auto
    next
      case False
      with a obtain key p1 p2 v p3 es' where
            s: "parse_json_string (skip_json_whitespace p) = Inr (key, p1)"
        and c: "expect (CHR '':'') (skip_json_whitespace p1) = Inr p2"
        and v: "parse_json_value fuel (skip_json_whitespace p2) = Inr (v, p3)"
        and rest: "parse_json_entries fuel k
                     (if peek (skip_json_whitespace p3) = CHR '',''
                      then skip_json_whitespace (advance (skip_json_whitespace p3))
                      else skip_json_whitespace p3) = Inr (es', r)"
        and es: "es = (key, v) # es'"
        by (auto simp: Let_def split: sum.splits prod.splits)
      have "children_bounded 256 v" using "8.IH"(1) [OF False s refl c] v by blast
      moreover have "length es' \<le> k \<and> list_all (\<lambda>e. children_bounded 256 (snd e)) es'"
        using "8.IH"(2) [OF False s refl c v refl refl refl] rest by blast
      ultimately show ?thesis using es by simp
    qed
  qed
qed

lemma json_to_toon_bounded: "json_to_toon s = Inr v \<Longrightarrow> children_bounded 256 v"
  using parse_json_bounded(1) [of "Suc (length s)" s]
  by (auto simp: json_to_toon_def split: sum.splits prod.splits simp del: parse_json_value.simps)

lemma parse_entries_prefix:
  "parse_entries fuel k p = Inr (es, r) \<Longrightarrow> j \<le> k \<Longrightarrow>
     \<exists>r'. parse_entries fuel j p = Inr (take j es, r')"
proof (induction j arbitrary: k p es r)
  case 0
  show ?case by simp
next
  case (Suc j)
  then obtain k' where k: "k = Suc k'" and jk: "j \<le> k'" by (cases k) auto
  show ?case
  proof (cases "peek p = CHR 0x00 \<or> peek (skip_whitespace p) = CHR 0x00
                \<or> peek (snd (scan_segment (\<lambda>c. c = CHR '':'') 255 (skip_whitespace p))) \<noteq> CHR '':''")
    case True
    then show ?thesis using Suc.prems(1) k by (auto simp: Let_def split: if_splits)
  next
    case False
    let ?kb = "scan_segment (\<lambda>c. c = CHR '':'') 255 (skip_whitespace p)"
    let ?key = "trim_right (dropWhile isspace (fst ?kb))"
    from False Suc.prems(1) k obtain v p2 es' where
      pv: "parse_value fuel (skip_whitespace (advance (snd ?kb))) = Inr (v, p2)"
      and rec: "parse_entries fuel k'
                  (if peek (skip_whitespace p2) = CHR 0x0A then advance (skip_whitespace p2)
                   else skip_whitespace p2) = Inr (es', r)"
      and es: "es = (?key, v) # es'"
      by (auto simp: Let_def split: sum.splits prod.splits)
    from Suc.IH [OF rec jk] obtain r' where
      "parse_entries fuel j
         (if peek (skip_whitespace p2) = CHR 0x0A then advance (skip_whitespace p2)
          else skip_whitespace p2) = Inr (take j es', r')"
      by blast
    then have "parse_entries fuel (Suc j) p = Inr (take (Suc j) es, r')"
      using False pv es by (simp add: Let_def)
    then show ?thesis by blast
  qed
qed

lemma toon_decode_truncates:
  assumes obj: "looks_like_object (CHR '' '') (skip_whitespace s)"
    and run: "parse_entries (Suc (length s)) k (skip_whitespace s) = Inr (es, rest)"
    and k: "256 \<le> k"
  shows "toon_decode s = Inr (TOON_OBJECT (take 256 es))"
proof -
  obtain r' where "parse_entries (Suc (length s)) 256 (skip_whitespace s) = Inr (take 256 es, r')"
    using parse_entries_prefix [OF run k] by blast
  then show ?thesis
    using obj by (simp add: toon_decode_def parse_object_def Let_def del: parse_entries.simps)
qed

lemma parse_json_elements_prefix:
  "parse_json_elements fuel k p = Inr (vs, r) \<Longrightarrow> j \<le> k \<Longrightarrow>
     \<exists>r'. parse_json_elements fuel j p = Inr (take j vs, r')
          \<and> (j < length vs \<longrightarrow> peek r' \<noteq> CHR '']'')"
proof (induction j arbitrary: k p vs r)
  case 0
  show ?case
  proof (cases k)
    case 0
    then show ?thesis using "0.prems" by simp
  next
    case (Suc k')
    then show ?thesis using "0.prems"
      by (auto simp: Let_def split: if_splits sum.splits prod.splits
            simp del: parse_json_value.simps)
  qed
next
  case (Suc j)
  then obtain k' where k: "k = Suc k'" and jk: "j \<le> k'" by (cases k) auto
  show ?case
  proof (cases "peek p = CHR '']'' \<or> peek p = CHR 0x00")
    case True
    then show ?thesis using Suc.prems(1) k by (auto simp del: parse_json_value.simps)
  next
    case False
    from False Suc.prems(1) k obtain v p1 vs' where
      pv: "parse_json_value fuel p = Inr (v, p1)"
      and rec: "parse_json_elements fuel k'
                  (if peek (skip_json_whitespace p1) = CHR '',''
                   then skip_json_whitespace (advance (skip_json_whitespace p1))
                   else skip_json_whitespace p1) = Inr (vs', r)"
      and vs: "vs = v # vs'"
      by (auto simp: Let_def split: sum.splits prod.splits simp del: parse_json_value.simps)
    from Suc.IH [OF rec jk] obtain r' where
      "parse_json_elements fuel j
         (if peek (skip_json_whitespace p1) = CHR '',''
          then skip_json_whitespace (advance (skip_json_whitespace p1))
          else skip_json_whitespace p1) = Inr (take j vs', r')"
      and "j < length vs' \<longrightarrow> peek r' \<noteq> CHR '']''"
      by blast
    then have "parse_json_elements fuel (Suc j) p = Inr (take (Suc j) vs, r')
               \<and> (Suc j < length vs \<longrightarrow> peek r' \<noteq> CHR '']'')"
      using False pv vs by (simp add: Let_def del: parse_json_value.simps)
    then show ?thesis by blast
  qed
qed

lemma parse_json_entries_prefix:
  "parse_json_entries fuel k p = Inr (es, r) \<Longrightarrow> j \<le> k \<Longrightarrow>
     \<exists>r'. parse_json_entries fuel j p = Inr (take j es, r')
          \<and> (j < length es \<longrightarrow> peek r' \<noteq> CHR ''}'')"
proof (induction j arbitrary: k p es r)
  case 0
  show ?case
  proof (cases k)
    case 0
    then show ?thesis using "0.prems" by simp
  next
    case (Suc k')
    then show ?thesis using "0.prems"
      by (auto simp: Let_def split: if_splits sum.splits prod.splits
            simp del: parse_json_value.simps)
  qed
next
  case (Suc j)
  then obtain k' where k: "k = Suc k'" and jk: "j \<le> k'" by (cases k) auto
  show ?case
  proof (cases "peek p = CHR ''}'' \<or> peek p = CHR 0x00")
    case True
    then show ?thesis using Suc.prems(1) k by (auto simp del: parse_json_value.simps)
  next
    case False
    from False Suc.prems(1) k obtain key p1 p2 v p3 es' where
      ps: "parse_json_string (skip_json_whitespace p) = Inr (key, p1)"
      and ex: "expect (CHR '':'') (skip_json_whitespace p1) = Inr p2"
      and pv: "parse_json_value fuel (skip_json_whitespace p2) = Inr (v, p3)"
      and rec: "parse_json_entries fuel k'
                  (if peek (skip_json_whitespace p3) = CHR '',''
                   then skip_json_whitespace (advance (skip_json_whitespace p3))
                   else skip_json_whitespace p3) = Inr (es', r)"
      and es: "es = (key, v) # es'"
      by (auto simp: Let_def split: sum.splits prod.splits simp del: parse_json_value.simps)
    from Suc.IH [OF rec jk] obtain r' where
      "parse_json_entries fuel j
         (if peek (skip_json_whitespace p3) = CHR '',''
          then skip_json_whitespace (advance (skip_json_whitespace p3))
          else skip_json_whitespace p3) = Inr (take j es', r')"
      and "j < length es' \<longrightarrow> peek r' \<noteq> CHR ''}''"
      by blast
    then have "parse_json_entries fuel (Suc j) p = Inr (take (Suc j) es, r')
               \<and> (Suc j < length es \<longrightarrow> peek r' \<noteq> CHR ''}'')"
      using False ps ex pv es by (simp add: Let_def del: parse_json_value.simps)
    then show ?thesis by blast
  qed
qed

lemma expect_Cons: "c \<noteq> CHR 0x00 \<Longrightarrow> expect c (c # p) = Inr p"
  by (simp add: expect_def peek_def advance_def)

lemma expect_fails: "peek p \<noteq> c \<Longrightarrow> expect c p = Inl SyntaxError"
  by (simp add: expect_def)

lemma json_array_rejected:
  assumes top: "skip_json_whitespace js = CHR ''['' # p0"
    and run: "parse_json_elements (length js) k (skip_json_whitespace p0) = Inr (vs, r)"
    and k: "256 \<le> k" and n: "256 < length vs"
  shows "json_to_toon js = Inl SyntaxError"
proof -
  obtain r' where pre: "parse_json_elements (length js) 256 (skip_json_whitespace p0) = Inr (take 256 vs, r')"
    and pk: "peek r' \<noteq> CHR '']''"
    using parse_json_elements_prefix [OF run k] n by blast
  have "parse_json_array (length js) (CHR ''['' # p0) = Inl SyntaxError"
    using pre expect_fails [OF pk]
    by (simp add: expect_Cons del: parse_json_elements.simps)
  then show ?thesis
    using top by (simp add: json_to_toon_def peek_def Let_def del: parse_json_array.simps)
qed

lemma json_object_rejected:
  assumes top: "skip_json_whitespace js = CHR ''{'' # p0"
    and run: "parse_json_entries (length js) k (skip_json_whitespace p0) = Inr (es, r)"
    and k: "256 \<le> k" and n: "256 < length es"
  shows "json_to_toon js = Inl SyntaxError"
proof -
  obtain r' where pre: "parse_json_entries (length js) 256 (skip_json_whitespace p0) = Inr (take 256 es, r')"
    and pk: "peek r' \<noteq> CHR ''}''"
    using parse_json_entries_prefix [OF run k] n by blast
  have "parse_json_object (length js) (CHR ''{'' # p0) = Inl SyntaxError"
    using pre expect_fails [OF pk]
    by (simp add: expect_Cons del: parse_json_entries.simps)
  then show ?thesis
    using top by (simp add: json_to_toon_def peek_def Let_def del: parse_json_object.simps)
qed

lemma lines_run:
  assumes "n < k"
  shows "parse_entries (Suc f) k (concat (replicate n (''k:x'' @ [CHR 0x0A])) @ ''z:y'' @ [CHR 0x0A])
           = Inr (replicate n (''k'', TOON_STRING ''x'') @ [(''z'', TOON_STRING ''y'')], [])"
proof -
  let ?last = "''z:y'' @ [CHR 0x0A]"
  have sk: "skip_whitespace ?last = ?last"
    by (simp add: skip_whitespace_Cons isspace_def)
  obtain k' where k: "k - n = Suc k'" using assms by (cases "k - n") auto
  have last: "parse_entries (Suc f) (Suc k') ?last = Inr ([(''z'', TOON_STRING ''y'')], [])"
    apply (subst parse_entries.simps)
    apply (simp add: parse_value_y peek_def advance_def skip_whitespace_Cons isspace_def
             trim_right_def skip_whitespace_Nil del: parse_value.simps parse_entries.simps)
    apply (cases k')
     apply (simp_all add: peek_def isspace_def)
    done
  have le: "n \<le> k" using assms by simp
  show ?thesis
    using parse_entries_le [OF le sk, of f] k last by simp
qed

lemma nulls_run:
  assumes "n < k"
  shows "parse_json_elements (Suc f) k (concat (replicate n ''null,'') @ ''null]'')
           = Inr (replicate n TOON_NULL @ [TOON_NULL], '']'')"
proof -
  have sk: "skip_json_whitespace ''null]'' = ''null]''"
    by (simp add: skip_json_whitespace_Cons isspace_def)
  obtain k' where k: "k - n = Suc k'" using assms by (cases "k - n") auto
  have last: "parse_json_elements (Suc f) (Suc k') ''null]'' = Inr ([TOON_NULL], '']'')"
    apply (subst parse_json_elements.simps)
    apply (simp add: parse_json_value_null peek_def skip_json_whitespace_Cons isspace_def
             del: parse_json_value.simps parse_json_elements.simps)
    apply (cases k')
     apply (simp_all add: peek_def)
    done
  have le: "n \<le> k" using assms by simp
  show ?thesis
    using parse_json_elements_nulls_le [OF le sk, of f] k last by simp
qed

lemma entries_run:
  assumes "n < k"
  shows "parse_json_entries (Suc f) k (concat (replicate n ''\"k\":null,'') @ ''\"k\":null}'')
           = Inr (replicate n (''k'', TOON_NULL) @ [(''k'', TOON_NULL)], ''}'')"
proof -
  have sk: "skip_json_whitespace ''\"k\":null}'' = ''\"k\":null}''"
    by (simp add: skip_json_whitespace_Cons isspace_def)
  obtain k' where k: "k - n = Suc k'" using assms by (cases "k - n") auto
  have last: "parse_json_entries (Suc f) (Suc k') ''\"k\":null}'' = Inr ([(''k'', TOON_NULL)], ''}'')"
    apply (subst parse_json_entries.simps)
    apply (simp add: parse_json_string_k parse_json_value_null peek_def advance_def expect_def
             skip_json_whitespace_Cons isspace_def
             del: parse_json_value.simps parse_json_entries.simps)
    apply (cases k')
     apply (simp_all add: peek_def)
    done
  have le: "n \<le> k" using assms by simp
  show ?thesis
    using parse_json_entries_le [OF le sk, of f] k last by simp
qed

text \<open>
  Claim C9, as stated: a JSON container with more than 256 children decodes to a value
  holding the first 256. It is false: a JSON array of 257 nulls is rejected with an error.
\<close>

theorem json_array_257_counterexample:
  "json_to_toon (''['' @ concat (replicate 256 ''null,'') @ ''null]'') = Inl SyntaxError"
  using json_array_of_nulls [of 256] by simp

text \<open>
  Claim C9, amended. The object parser of \<^verbatim>\<open>toon_decode\<close> stops collecting after 256
  entries and returns the first 256 without an error: an object it returns never has more
  than 256 entries; whatever entries the loop would collect in 256 rounds or more,
  \<^verbatim>\<open>toon_decode\<close> returns the first 256 of them; and a text of \<open>n\<close> lines \<open>k:x\<close>
  followed by the line \<open>z:y\<close> decodes to all \<open>n + 1\<close> entries when \<open>n < 256\<close> and to
  the first 256 otherwise. The array and object parsers of \<^verbatim>\<open>json_to_toon\<close> also stop
  collecting after 256 children, but then ask for the closing bracket or brace: no value
  that \<^verbatim>\<open>json_to_toon\<close> returns has a container with more than 256 children; a text
  whose outermost array or object holds more than 256 children, each parsed without an
  error, is rejected with an error; and an array or object of \<open>n + 1\<close> nulls is decoded
  when \<open>n < 256\<close> and rejected with an error otherwise.
\<close>

theorem container_cap:
  "(toon_decode s = Inr (TOON_OBJECT es) \<longrightarrow> length es \<le> 256)
   \<and> (looks_like_object (CHR '' '') (skip_whitespace s)
        \<and> parse_entries (Suc (length s)) k (skip_whitespace s) = Inr (es', rest) \<and> 256 \<le> k
      \<longrightarrow> toon_decode s = Inr (TOON_OBJECT (take 256 es')))
   \<and> toon_decode (concat (replicate n (''k:x'' @ [CHR 0x0A])) @ ''z:y'' @ [CHR 0x0A]) =
       Inr (TOON_OBJECT (if n < 256
                         then replicate n (''k'', TOON_STRING ''x'') @ [(''z'', TOON_STRING ''y'')]
                         else replicate 256 (''k'', TOON_STRING ''x'')))
   \<and> (json_to_toon js = Inr v \<longrightarrow> children_bounded 256 v)
   \<and> (skip_json_whitespace js = CHR ''['' # p0
        \<and> parse_json_elements (length js) k (skip_json_whitespace p0) = Inr (vs, r)
        \<and> 256 \<le> k \<and> 256 < length vs
      \<longrightarrow> json_to_toon js = Inl SyntaxError)
   \<and> (skip_json_whitespace js = CHR ''{'' # p0
        \<and> parse_json_entries (length js) k (skip_json_whitespace p0) = Inr (es', r)
        \<and> 256 \<le> k \<and> 256 < length es'
      \<longrightarrow> json_to_toon js = Inl SyntaxError)
   \<and> json_to_toon (''['' @ concat (replicate n ''null,'') @ ''null]'') =
       (if n < 256 then Inr (TOON_ARRAY (replicate (Suc n) TOON_NULL)) else Inl SyntaxError)
   \<and> json_to_toon (''{'' @ concat (replicate n ''\"k\":null,'') @ ''\"k\":null}'') =
       (if n < 256 then Inr (TOON_OBJECT (replicate (Suc n) (''k'', TOON_NULL)))
        else Inl SyntaxError)"
  using toon_decode_object_bound [of s es] toon_decode_truncates [of s k es' rest]
        toon_object_of_lines [of n] json_to_toon_bounded [of js v]
        json_array_rejected [of js p0 k vs r] json_object_rejected [of js p0 k es' r]
        json_array_of_nulls [of n] json_object_of_nulls [of n]
  by blast

theorem container_cap_witness:
  "toon_decode (concat (replicate 257 (''k:x'' @ [CHR 0x0A])) @ ''z:y'' @ [CHR 0x0A])
     = Inr (TOON_OBJECT (replicate 256 (''k'', TOON_STRING ''x'')))
   \<and> length (replicate 256 (''k'', TOON_STRING ''x'')) \<le> 256
   \<and> looks_like_object (CHR '' '')
        (skip_whitespace (concat (replicate 257 (''k:x'' @ [CHR 0x0A])) @ ''z:y'' @ [CHR 0x0A]))
   \<and> parse_entries (Suc (length (concat (replicate 257 (''k:x'' @ [CHR 0x0A])) @ ''z:y'' @ [CHR 0x0A])))
        300 (skip_whitespace (concat (replicate 257 (''k:x'' @ [CHR 0x0A])) @ ''z:y'' @ [CHR 0x0A]))
     = Inr (replicate 257 (''k'', TOON_STRING ''x'') @ [(''z'', TOON_STRING ''y'')], [])
   \<and> (256 :: nat) \<le> 300
   \<and> toon_decode (concat (replicate 257 (''k:x'' @ [CHR 0x0A])) @ ''z:y'' @ [CHR 0x0A])
     = Inr (TOON_OBJECT (take 256 (replicate 257 (''k'', TOON_STRING ''x'') @ [(''z'', TOON_STRING ''y'')])))
   \<and> json_to_toon (''['' @ concat (replicate 255 ''null,'') @ ''null]'')
     = Inr (TOON_ARRAY (replicate 256 TOON_NULL))
   \<and> children_bounded 256 (TOON_ARRAY (replicate 256 TOON_NULL))
   \<and> skip_json_whitespace (CHR ''['' # concat (replicate 256 ''null,'') @ ''null]'')
     = CHR ''['' # concat (replicate 256 ''null,'') @ ''null]''
   \<and> parse_json_elements (length (CHR ''['' # concat (replicate 256 ''null,'') @ ''null]'')) 300
        (skip_json_whitespace (concat (replicate 256 ''null,'') @ ''null]''))
     = Inr (replicate 256 TOON_NULL @ [TOON_NULL], '']'')
   \<and> 256 < length (replicate 256 TOON_NULL @ [TOON_NULL])
   \<and> json_to_toon (CHR ''['' # concat (replicate 256 ''null,'') @ ''null]'') = Inl SyntaxError
   \<and> skip_json_whitespace (CHR ''{'' # concat (replicate 256 ''\"k\":null,'') @ ''\"k\":null}'')
     = CHR ''{'' # concat (replicate 256 ''\"k\":null,'') @ ''\"k\":null}''
   \<and> parse_json_entries (length (CHR ''{'' # concat (replicate 256 ''\"k\":null,'') @ ''\"k\":null}'')) 300
        (skip_json_whitespace (concat (replicate 256 ''\"k\":null,'') @ ''\"k\":null}''))
     = Inr (replicate 256 (''k'', TOON_NULL) @ [(''k'', TOON_NULL)], ''}'')
   \<and> 256 < length (replicate 256 (''k'', TOON_NULL) @ [(''k'', TOON_NULL)])
   \<and> json_to_toon (CHR ''{'' # concat (replicate 256 ''\"k\":null,'') @ ''\"k\":null}'') = Inl SyntaxError"
proof -
  let ?S = "concat (replicate 257 (''k:x'' @ [CHR 0x0A])) @ ''z:y'' @ [CHR 0x0A]"
  let ?E = "replicate 257 (''k'', TOON_STRING ''x'') @ [(''z'', TOON_STRING ''y'')]"
  let ?B = "concat (replicate 256 ''null,'') @ ''null]''"
  let ?V = "replicate 256 TOON_NULL @ [TOON_NULL]"
  let ?C = "concat (replicate 256 ''\"k\":null,'') @ ''\"k\":null}''"
  let ?W = "replicate 256 (''k'', TOON_NULL) @ [(''k'', TOON_NULL)]"
  have t1: "toon_decode ?S = Inr (TOON_OBJECT (replicate 256 (''k'', TOON_STRING ''x'')))"
    using toon_object_of_lines [of 257] by simp
  have t2: "length (replicate 256 (''k'', TOON_STRING ''x'')) \<le> 256"
    using t1 container_cap [where s = ?S and es = "replicate 256 (''k'', TOON_STRING ''x'')"]
    by blast
  have sk: "skip_whitespace (''z:y'' @ [CHR 0x0A]) = ''z:y'' @ [CHR 0x0A]"
    by (simp add: skip_whitespace_Cons isspace_def)
  have sks: "skip_whitespace ?S = ?S" by (rule skip_lines [OF sk])
  have t3: "looks_like_object (CHR '' '') (skip_whitespace ?S)"
    using looks_like_object_lines [of 257] by (simp only: sks)
  have "parse_entries (Suc (length ?S)) 300 ?S = Inr (?E, [])"
    by (rule lines_run) simp
  then have t4: "parse_entries (Suc (length ?S)) 300 (skip_whitespace ?S) = Inr (?E, [])"
    by (simp only: sks)
  have t5: "(256 :: nat) \<le> 300" by simp
  have t6: "toon_decode ?S = Inr (TOON_OBJECT (take 256 ?E))"
    using t3 t4 t5 container_cap [where s = ?S and k = 300 and es' = ?E and rest = "[]"]
    by blast
  have j1: "json_to_toon (''['' @ concat (replicate 255 ''null,'') @ ''null]'')
              = Inr (TOON_ARRAY (replicate 256 TOON_NULL))"
    using json_array_of_nulls [of 255] by simp
  have j2: "children_bounded 256 (TOON_ARRAY (replicate 256 TOON_NULL))"
    using j1 container_cap [where js = "''['' @ concat (replicate 255 ''null,'') @ ''null]''"
        and v = "TOON_ARRAY (replicate 256 TOON_NULL)"]
    by blast
  have a1: "skip_json_whitespace (CHR ''['' # ?B) = CHR ''['' # ?B"
    by (simp add: skip_json_whitespace_Cons isspace_def)
  have skn: "skip_json_whitespace ''null]'' = ''null]''"
    by (simp add: skip_json_whitespace_Cons isspace_def)
  have skb: "skip_json_whitespace ?B = ?B" by (rule skip_nulls [OF skn])
  have "parse_json_elements (Suc (length ?B)) 300 ?B = Inr (?V, '']'')"
    by (rule nulls_run) simp
  then have a2: "parse_json_elements (length (CHR ''['' # ?B)) 300 (skip_json_whitespace ?B)
                   = Inr (?V, '']'')"
    by (simp only: skb length_Cons)
  have a3: "256 < length ?V" by simp
  have a4: "json_to_toon (CHR ''['' # ?B) = Inl SyntaxError"
    using a1 a2 a3 t5 container_cap [where js = "CHR ''['' # ?B" and ?p0.0 = ?B and k = 300
        and vs = ?V and r = "'']''"]
    by blast
  have o1: "skip_json_whitespace (CHR ''{'' # ?C) = CHR ''{'' # ?C"
    by (simp add: skip_json_whitespace_Cons isspace_def)
  have ske: "skip_json_whitespace ''\"k\":null}'' = ''\"k\":null}''"
    by (simp add: skip_json_whitespace_Cons isspace_def)
  have skc: "skip_json_whitespace ?C = ?C" by (rule skip_entries [OF ske])
  have "parse_json_entries (Suc (length ?C)) 300 ?C = Inr (?W, ''}'')"
    by (rule entries_run) simp
  then have o2: "parse_json_entries (length (CHR ''{'' # ?C)) 300 (skip_json_whitespace ?C)
                   = Inr (?W, ''}'')"
    by (simp only: skc length_Cons)
  have o3: "256 < length ?W" by simp
  have o4: "json_to_toon (CHR ''{'' # ?C) = Inl SyntaxError"
    using o1 o2 o3 t5 container_cap [where js = "CHR ''{'' # ?C" and ?p0.0 = ?C and k = 300
        and es' = ?W and r = "''}''"]
    by blast
  show ?thesis
    using t1 t2 t3 t4 t5 t6 j1 j2 a1 a2 a3 a4 o1 o2 o3 o4 by blast
qed

subsection \<open>Quoting of strings\<close>

lemma has_structural_iff: "has_structural s \<longleftrightarrow> list_ex is_structural s"
  by (induction s) simp_all

lemma char_value_lt_32:
  "char_value c < 32 \<longleftrightarrow> (of_char c :: nat) < 32 \<or> (of_char c :: nat) \<ge> 128"
proof -
  define n where "n = (of_char c :: nat)"
  have "n < 256" by (simp add: n_def)
  then have "(if n \<ge> 128 then int n - 256 else int n) < 32 \<longleftrightarrow> n < 32 \<or> n \<ge> 128"
    by auto
  then show ?thesis by (simp only: char_value_def n_def)
qed

lemma is_structural_iff:
  "is_structural c \<longleftrightarrow>
     (c = CHR '','' \<or> c = CHR '':'' \<or> c = CHR 0x0A \<or> c = CHR 0x0D
      \<or> c = CHR ''{'' \<or> c = CHR ''}'' \<or> c = CHR ''['' \<or> c = CHR '']''
      \<or> is_control c) \<or> high_byte c"
  by (auto simp: is_structural_def char_value_lt_32 is_control_def high_byte_def)

lemma needs_quoting_iff:
  "needs_quoting s \<longleftrightarrow> needs_quoting_spec s \<or> list_ex high_byte s"
proof (cases "s = [] \<or> s = ''null'' \<or> s = ''true'' \<or> s = ''false'' \<or> snd (strtod s) = []
              \<or> isspace (hd s) \<or> isspace (last s)")
  case True
  then show ?thesis by (auto simp: needs_quoting_def needs_quoting_spec_def)
next
  case False
  then have "needs_quoting s \<longleftrightarrow> list_ex is_structural s"
    by (auto simp: needs_quoting_def has_structural_iff)
  also have "\<dots> \<longleftrightarrow> list_ex (\<lambda>c. c = CHR '','' \<or> c = CHR '':'' \<or> c = CHR 0x0A \<or> c = CHR 0x0D
                    \<or> c = CHR ''{'' \<or> c = CHR ''}'' \<or> c = CHR ''['' \<or> c = CHR '']''
                    \<or> is_control c) s \<or> list_ex high_byte s"
    by (induction s) (auto simp: is_structural_iff)
  finally show ?thesis using False by (auto simp: needs_quoting_spec_def)
qed

text \<open>
  Claim C8. \<^verbatim>\<open>toon_encode\<close> emits a string quoted exactly when \<^verbatim>\<open>needs_quoting\<close>
  holds, and the string \<open>42\<close> is quoted while \<open>hello\<close> is bare. \<^verbatim>\<open>needs_quoting\<close>
  holds when the specification's condition does, and also for every string with a byte of
  0x80 or above: the test \<^verbatim>\<open>*p < 32\<close> compares a signed byte. So the two bytes of the
  UTF-8 letter e-acute need no quoting by the specification's condition and are emitted
  quoted.
\<close>

theorem string_quoting:
  "toon_encode stale (TOON_STRING s) 0 = (if needs_quoting s then escape_string s else s)
   \<and> (needs_quoting s \<longleftrightarrow> needs_quoting_spec s \<or> list_ex high_byte s)
   \<and> toon_encode stale (TOON_STRING ''42'') 0 = [CHR 0x22, CHR ''4'', CHR ''2'', CHR 0x22]
   \<and> toon_encode stale (TOON_STRING ''hello'') 0 = ''hello''
   \<and> \<not> needs_quoting_spec [CHR 0xC3, CHR 0xA9]
   \<and> toon_encode stale (TOON_STRING [CHR 0xC3, CHR 0xA9]) 0 = [CHR 0x22, CHR 0xC3, CHR 0xA9, CHR 0x22]"
proof (intro conjI)
  show "toon_encode stale (TOON_STRING s) 0 = (if needs_quoting s then escape_string s else s)"
    by (simp add: toon_encode_def)
  show "needs_quoting s \<longleftrightarrow> needs_quoting_spec s \<or> list_ex high_byte s"
    by (rule needs_quoting_iff)
qed code_simp+

subsection \<open>Round trip\<close>

lemma scan_segment_exact:
  "\<forall>c \<in> set xs. c \<noteq> CHR 0x00 \<and> \<not> stop c \<Longrightarrow> length xs \<le> n \<Longrightarrow>
   rest = [] \<or> stop (hd rest) \<or> hd rest = CHR 0x00 \<Longrightarrow>
   scan_segment stop n (xs @ rest) = (xs, rest)"
proof (induction xs arbitrary: n)
  case Nil
  then show ?case by (cases rest) auto
next
  case (Cons a xs)
  then obtain m where n: "n = Suc m" by (cases n) auto
  have "scan_segment stop m (xs @ rest) = (xs, rest)"
    using Cons.IH [of m] Cons.prems n by simp
  then show ?case using Cons.prems n by simp
qed

lemma show_nat_length: "0 < k \<Longrightarrow> n < 10 ^ k \<Longrightarrow> length (show_nat n) \<le> k"
proof (induction n arbitrary: k rule: show_nat.induct)
  case (1 n)
  show ?case
  proof (cases "n < 10")
    case True
    then show ?thesis using "1.prems" by (simp add: show_nat_small)
  next
    case False
    obtain j where k: "k = Suc j" using "1.prems" by (cases k) auto
    have j: "0 < j" using False "1.prems" k by (cases j) auto
    have "n div 10 < 10 ^ j" using "1.prems" k by (simp add: less_mult_imp_div_less mult.commute)
    then have "length (show_nat (n div 10)) \<le> j" using "1.IH" [OF False j] by simp
    then show ?thesis using False k by (simp add: show_nat_large)
  qed
qed

lemma digits_value_foldl: "foldl (\<lambda>acc c. acc * 10 + digit_value c) a ds = atoi_digits a ds"
  if "\<forall>c \<in> set ds. isdigit c"
  using that by (induction ds arbitrary: a) simp_all

lemma atoi_digits_show_nat_nil: "atoi_digits 0 (show_nat n) = int n"
  using atoi_digits_show_nat_stop [of "[]" n] by (simp add: peek_def isdigit_def)

lemma digits_value_show_nat: "digits_value (show_nat n) = int n"
  using digits_value_foldl [of "show_nat n" 0] show_nat_digits [of _ n]
  by (simp add: digits_value_def atoi_digits_show_nat_nil)

lemma takeWhile_all: "\<forall>c \<in> set xs. P c \<Longrightarrow> takeWhile P xs = xs"
  by (induction xs) simp_all

lemma dropWhile_all: "\<forall>c \<in> set xs. P c \<Longrightarrow> dropWhile P xs = []"
  by (induction xs) simp_all

lemma tolower_digit: "isdigit c \<Longrightarrow> tolower c = c"
  by (auto simp: tolower_def isdigit_def)

lemma has_prefix_ci_digit:
  "isdigit c \<Longrightarrow> p \<noteq> [] \<Longrightarrow> \<not> isdigit (hd p) \<Longrightarrow> \<not> has_prefix_ci p (c # cs)"
  by (cases p) (auto simp: has_prefix_ci_def tolower_digit)

lemma has_prefix_ci_0x:
  "\<forall>c \<in> set ds. isdigit c \<Longrightarrow> \<not> has_prefix_ci ''0x'' ds"
proof (cases ds)
  case Nil
  then show ?thesis by (simp add: has_prefix_ci_def)
next
  case (Cons a as)
  assume d: "\<forall>c \<in> set ds. isdigit c"
  show ?thesis
  proof (cases as)
    case Nil
    with Cons show ?thesis by (simp add: has_prefix_ci_def)
  next
    case (Cons b bs)
    with \<open>ds = a # as\<close> d have "isdigit b" by simp
    then have "tolower b \<noteq> CHR ''x''" by (auto simp: tolower_digit isdigit_def)
    with Cons \<open>ds = a # as\<close> show ?thesis by (simp add: has_prefix_ci_def)
  qed
qed

lemma strtod_body_digits:
  assumes "ds \<noteq> []" and "\<forall>c \<in> set ds. isdigit c"
  shows "strtod_body ds = Some (of_int (digits_value ds), [])"
proof -
  obtain c cs where ds: "ds = c # cs" using assms(1) by (cases ds) auto
  then have c: "isdigit c" using assms(2) by simp
  have np: "\<not> has_prefix_ci ''infinity'' ds" "\<not> has_prefix_ci ''inf'' ds" "\<not> has_prefix_ci ''nan'' ds"
    using c ds by (simp_all add: has_prefix_ci_digit isdigit_def)
  have nx: "\<not> has_prefix_ci ''0x'' ds" using assms(2) by (rule has_prefix_ci_0x)
  have "strtod_decimal ds = Some (of_int (digits_value ds), [])"
    using assms
    by (simp add: strtod_decimal_def takeWhile_all dropWhile_all strtod_exponent_def scale10_def)
  then show ?thesis using np nx by (simp add: strtod_body_def)
qed

lemma strtod_show_nat: "strtod (show_nat n) = (of_nat n, [])"
proof -
  obtain c cs where cs: "show_nat n = c # cs"
    using show_nat_nonempty [of n] by (cases "show_nat n") auto
  then have d: "isdigit c" using show_nat_digits [of c n] by simp
  then have ns: "\<not> isspace c" "c \<noteq> CHR ''-''" "c \<noteq> CHR ''+''"
    by (auto simp: isdigit_def isspace_def)
  have "strtod_body (show_nat n) = Some (of_int (digits_value (show_nat n)), [])"
    using show_nat_nonempty show_nat_digits by (intro strtod_body_digits) auto
  moreover have "digits_value (c # cs) = int n"
    using digits_value_show_nat [of n] cs by simp
  ultimately show ?thesis
    using cs ns by (simp add: strtod_def)
qed

lemma strtod_show_int: "strtod (show_int i) = (of_int i, [])"
proof (cases "i < 0")
  case False
  then show ?thesis by (simp add: show_int_def strtod_show_nat)
next
  case True
  have "strtod_body (show_nat (nat (- i))) = Some (of_int (digits_value (show_nat (nat (- i)))), [])"
    using show_nat_nonempty show_nat_digits by (intro strtod_body_digits) auto
  then show ?thesis
    using True by (simp add: show_int_def strtod_def isspace_def digits_value_show_nat)
qed

lemma quoted_chars_escape:
  "CHR 0x00 \<notin> set s \<Longrightarrow>
   quoted_chars (escape_chars s @ CHR 0x22 # rest) = Inr (s, CHR 0x22 # rest)"
  by (induction s) (auto simp: unescape_def peek_def)

lemma escape_chars_length: "length s \<le> length (escape_chars s)"
  by (induction s) auto

lemma parse_quoted_string_escape:
  "CHR 0x00 \<notin> set s \<Longrightarrow>
   parse_quoted_string (escape_string s @ rest) = Inr (take 4095 s, rest)"
  by (simp add: parse_quoted_string_def escape_string_def expect_def peek_def advance_def
        quoted_chars_escape)

lemma trim_right_id: "s = [] \<or> \<not> isspace (last s) \<Longrightarrow> trim_right s = s"
  by (cases s rule: rev_cases) (auto simp: trim_right_def)

lemma parse_unquoted_string_exact:
  assumes "\<forall>c \<in> set s. c \<noteq> CHR 0x00 \<and> c \<notin> set delimiters"
    and "rest = [] \<or> hd rest \<in> set delimiters \<or> hd rest = CHR 0x00"
  shows "parse_unquoted_string (s @ rest) delimiters = (trim_right (take 4095 s), rest)"
proof -
  let ?go = "\<lambda>c. c \<noteq> CHR 0x00 \<and> c \<notin> set delimiters"
  have r: "takeWhile ?go rest = []" "dropWhile ?go rest = rest"
    using assms(2) by (cases rest; auto)+
  have "takeWhile ?go (s @ rest) = s"
    using assms(1) r by (simp add: takeWhile_append2)
  moreover have "dropWhile ?go (s @ rest) = rest"
    using assms(1) r by (simp add: dropWhile_append2)
  ultimately show ?thesis by (simp add: parse_unquoted_string_def Let_def)
qed

lemma show_nat_no_nul: "c \<in> set (show_nat n) \<Longrightarrow> c \<noteq> CHR 0x00"
  using show_nat_digits [of c n] by (auto simp: isdigit_def)

lemma hd_show_nat_digit: "isdigit (hd (show_nat n))"
  using show_nat_nonempty [of n] show_nat_digits [of "hd (show_nat n)" n] by simp

lemma parse_number_show_int:
  assumes "- (2 ^ 63) \<le> i" and "i < 2 ^ 63" and "rest = [] \<or> hd rest = CHR '','' \<or> hd rest = CHR 0x0A"
  shows "parse_number (show_int i @ rest) = (TOON_NUMBER (of_int i), rest)"
proof -
  let ?stop = "\<lambda>c. \<not> (isdigit c \<or> c = CHR ''.'')"
  have stop: "rest = [] \<or> ?stop (hd rest) \<or> hd rest = CHR 0x00"
    using assms(3) by (auto simp: isdigit_def)
  have len: "\<And>m. m \<le> 2 ^ 63 \<Longrightarrow> length (show_nat m) \<le> 62"
  proof -
    fix m :: nat assume "m \<le> 2 ^ 63"
    then have "m < 10 ^ 62" by (rule le_less_trans) simp
    then show "length (show_nat m) \<le> 62" by (intro show_nat_length) simp_all
  qed
  have scan: "\<And>m n. m \<le> 2 ^ 63 \<Longrightarrow> 62 \<le> n \<Longrightarrow>
      scan_segment ?stop n (show_nat m @ rest) = (show_nat m, rest)"
  proof -
    fix m n :: nat assume m: "m \<le> 2 ^ 63" and n: "62 \<le> n"
    have "\<forall>c \<in> set (show_nat m). c \<noteq> CHR 0x00 \<and> \<not> ?stop c"
      using show_nat_digits show_nat_no_nul by auto
    moreover have "length (show_nat m) \<le> n" using len [OF m] n by simp
    ultimately show "scan_segment ?stop n (show_nat m @ rest) = (show_nat m, rest)"
      using stop by (intro scan_segment_exact) auto
  qed
  show ?thesis
  proof (cases "i < 0")
    case True
    then have m: "nat (- i) \<le> 2 ^ 63" using assms(1) by simp
    have "parse_number (CHR ''-'' # show_nat (nat (- i)) @ rest)
            = (TOON_NUMBER (fst (strtod (CHR ''-'' # show_nat (nat (- i))))), rest)"
      using scan [OF m, of 62]
      by (simp add: parse_number_def peek_def advance_def Let_def)
    moreover have "strtod (CHR ''-'' # show_nat (nat (- i))) = (of_int i, [])"
      using strtod_show_int [of i] True by (simp add: show_int_def)
    ultimately show ?thesis using True by (simp add: show_int_def)
  next
    case False
    then have m: "nat i \<le> 2 ^ 63" using assms(2) by simp
    have hd: "peek (show_nat (nat i) @ rest) \<noteq> CHR ''-''"
      using hd_show_nat_digit [of "nat i"] show_nat_nonempty [of "nat i"]
      by (cases "show_nat (nat i)") (auto simp: peek_def isdigit_def)
    have "parse_number (show_nat (nat i) @ rest)
            = (TOON_NUMBER (fst (strtod (show_nat (nat i)))), rest)"
      using scan [OF m, of 63] hd
      by (simp add: parse_number_def Let_def)
    moreover have "strtod (show_nat (nat i)) = (of_int i, [])"
      using strtod_show_int [of i] False by (simp add: show_int_def)
    ultimately show ?thesis using False by (simp add: show_int_def)
  qed
qed

lemma is_structural_special:
  "is_structural (CHR 0x00)" "is_structural (CHR '','')" "is_structural (CHR '':'')"
  "is_structural (CHR 0x0A)" "is_structural (CHR 0x0D)" "is_structural (CHR ''['')"
  by (simp_all add: is_structural_def char_value_def)

lemma has_structural_mem: "c \<in> set s \<Longrightarrow> is_structural c \<Longrightarrow> has_structural s"
  by (induction s) auto

lemma not_structural_chars:
  "\<not> has_structural s \<Longrightarrow> c \<in> set s \<Longrightarrow>
     c \<noteq> CHR 0x00 \<and> c \<noteq> CHR '','' \<and> c \<noteq> CHR '':'' \<and> c \<noteq> CHR 0x0A \<and> c \<noteq> CHR 0x0D
     \<and> c \<noteq> CHR ''[''"
  using has_structural_mem [of c s] is_structural_special by blast

lemma skip_whitespace_nonspace:
  "p = [] \<or> \<not> isspace (hd p) \<Longrightarrow> skip_whitespace p = p"
  by (cases p) (auto simp: skip_whitespace_def)

lemma format_number_integer:
  "of_int \<lfloor>num\<rfloor> = num \<Longrightarrow> - (2 ^ 63) \<le> \<lfloor>num\<rfloor> \<Longrightarrow> \<lfloor>num\<rfloor> < 2 ^ 63 \<Longrightarrow>
   format_number num = show_int \<lfloor>num\<rfloor>"
  by (simp add: format_number_def)

lemma hd_show_int: "hd (show_int i) = CHR ''-'' \<or> isdigit (hd (show_int i))"
  using hd_show_nat_digit by (simp add: show_int_def)

lemma show_int_nonempty: "show_int i \<noteq> []"
  using show_nat_nonempty by (simp add: show_int_def)

text \<open>The encoded text of a scalar does not depend on the stale bytes, the indent or the inline flag.\<close>

lemma scalar_text_simps [simp]:
  "scalar_text TOON_NULL = ''null''"
  "scalar_text (TOON_BOOLEAN b) = (if b then ''true'' else ''false'')"
  "scalar_text (TOON_NUMBER num) = format_number num"
  "scalar_text (TOON_STRING str) = (if needs_quoting str then escape_string str else str)"
  by (simp_all add: scalar_text_def)

lemma encode_scalar_flags:
  "round_trip_scalar v \<Longrightarrow> encode_value stale v i m = scalar_text v"
  by (cases v) (simp_all add: round_trip_scalar_def)

lemma parse_value_unquoted:
  assumes "parse_unquoted_string (c # cs @ rest) [CHR '','', CHR 0x0A, CHR 0x0D, CHR '':'']
             = (c # cs, rest)"
    and "c \<noteq> CHR 0x22" "c \<noteq> CHR ''-''" "\<not> isdigit c" "\<not> isspace c" "c \<noteq> CHR ''[''"
  shows "parse_value (Suc f) (c # cs @ rest) = Inr (keyword_value (c # cs), rest)"
  using assms by (simp add: skip_whitespace_def peek_def Let_def)

lemma parse_value_null_text:
  assumes "rest = [] \<or> hd rest = CHR '','' \<or> hd rest = CHR 0x0A"
  shows "parse_value (Suc f) (''null'' @ rest) = Inr (TOON_NULL, rest)"
proof -
  have "parse_unquoted_string (''null'' @ rest) [CHR '','', CHR 0x0A, CHR 0x0D, CHR '':'']
          = (trim_right (take 4095 ''null''), rest)"
    using assms by (intro parse_unquoted_string_exact) auto
  then have "parse_unquoted_string (CHR ''n'' # ''ull'' @ rest) [CHR '','', CHR 0x0A, CHR 0x0D, CHR '':'']
          = (CHR ''n'' # ''ull'', rest)"
    by (simp add: trim_right_def isspace_def)
  then have "parse_value (Suc f) (CHR ''n'' # ''ull'' @ rest) = Inr (keyword_value (CHR ''n'' # ''ull''), rest)"
    by (rule parse_value_unquoted) (simp_all add: isdigit_def isspace_def)
  then show ?thesis by (simp add: keyword_value_def)
qed

lemma parse_value_true_text:
  assumes "rest = [] \<or> hd rest = CHR '','' \<or> hd rest = CHR 0x0A"
  shows "parse_value (Suc f) (''true'' @ rest) = Inr (TOON_BOOLEAN True, rest)"
proof -
  have "parse_unquoted_string (''true'' @ rest) [CHR '','', CHR 0x0A, CHR 0x0D, CHR '':'']
          = (trim_right (take 4095 ''true''), rest)"
    using assms by (intro parse_unquoted_string_exact) auto
  then have "parse_unquoted_string (CHR ''t'' # ''rue'' @ rest) [CHR '','', CHR 0x0A, CHR 0x0D, CHR '':'']
          = (CHR ''t'' # ''rue'', rest)"
    by (simp add: trim_right_def isspace_def)
  then have "parse_value (Suc f) (CHR ''t'' # ''rue'' @ rest) = Inr (keyword_value (CHR ''t'' # ''rue''), rest)"
    by (rule parse_value_unquoted) (simp_all add: isdigit_def isspace_def)
  then show ?thesis by (simp add: keyword_value_def)
qed

lemma parse_value_false_text:
  assumes "rest = [] \<or> hd rest = CHR '','' \<or> hd rest = CHR 0x0A"
  shows "parse_value (Suc f) (''false'' @ rest) = Inr (TOON_BOOLEAN False, rest)"
proof -
  have "parse_unquoted_string (''false'' @ rest) [CHR '','', CHR 0x0A, CHR 0x0D, CHR '':'']
          = (trim_right (take 4095 ''false''), rest)"
    using assms by (intro parse_unquoted_string_exact) auto
  then have "parse_unquoted_string (CHR ''f'' # ''alse'' @ rest) [CHR '','', CHR 0x0A, CHR 0x0D, CHR '':'']
          = (CHR ''f'' # ''alse'', rest)"
    by (simp add: trim_right_def isspace_def)
  then have "parse_value (Suc f) (CHR ''f'' # ''alse'' @ rest) = Inr (keyword_value (CHR ''f'' # ''alse''), rest)"
    by (rule parse_value_unquoted) (simp_all add: isdigit_def isspace_def)
  then show ?thesis by (simp add: keyword_value_def)
qed

lemma parse_value_number_text:
  assumes "- (2 ^ 63) \<le> i" and "i < 2 ^ 63" and "rest = [] \<or> hd rest = CHR '','' \<or> hd rest = CHR 0x0A"
  shows "parse_value (Suc f) (show_int i @ rest) = Inr (TOON_NUMBER (of_int i), rest)"
proof -
  obtain c cs where cs: "show_int i = c # cs"
    using show_int_nonempty [of i] by (cases "show_int i") auto
  have c: "isdigit c \<or> c = CHR ''-''" using hd_show_int [of i] cs by auto
  then have ns: "\<not> isspace c" "c \<noteq> CHR 0x22" by (auto simp: isspace_def isdigit_def)
  have "parse_number (show_int i @ rest) = (TOON_NUMBER (of_int i), rest)"
    using assms by (intro parse_number_show_int) auto
  then have pn: "parse_number (c # cs @ rest) = (TOON_NUMBER (of_int i), rest)"
    using cs by simp
  have "parse_value (Suc f) (c # cs @ rest) = Inr (parse_number (c # cs @ rest))"
    using c ns by (simp add: skip_whitespace_def peek_def Let_def)
  then show ?thesis using pn cs by simp
qed

lemma keyword_value_string:
  "s \<noteq> ''null'' \<Longrightarrow> s \<noteq> ''true'' \<Longrightarrow> s \<noteq> ''false'' \<Longrightarrow> keyword_value s = TOON_STRING s"
  by (simp add: keyword_value_def)

lemma parse_value_string_text:
  assumes u: "unambiguous_string s" and "rest = [] \<or> hd rest = CHR '','' \<or> hd rest = CHR 0x0A"
  shows "parse_value (Suc f) ((if needs_quoting s then escape_string s else s) @ rest)
           = Inr (TOON_STRING s, rest)"
proof (cases "needs_quoting s")
  case True
  have "length s + 2 \<le> length (escape_string s)"
    using escape_chars_length [of s] by (simp add: escape_string_def)
  then have len: "length s \<le> 4095" using u True by (simp add: unambiguous_string_def)
  have "parse_quoted_string (escape_string s @ rest) = Inr (take 4095 s, rest)"
    using u by (intro parse_quoted_string_escape) (simp add: unambiguous_string_def)
  then have pq: "parse_quoted_string (CHR 0x22 # escape_chars s @ CHR 0x22 # rest) = Inr (s, rest)"
    using len by (simp add: escape_string_def)
  have "parse_value (Suc f) (CHR 0x22 # escape_chars s @ CHR 0x22 # rest)
          = (case parse_quoted_string (CHR 0x22 # escape_chars s @ CHR 0x22 # rest) of
               Inl e \<Rightarrow> Inl e | Inr (str, r) \<Rightarrow> Inr (TOON_STRING str, r))"
    by (simp add: skip_whitespace_def isspace_def peek_def Let_def)
  then show ?thesis using True pq by (simp add: escape_string_def)
next
  case False
  then have ne: "s \<noteq> []" and kw: "s \<noteq> ''null''" "s \<noteq> ''true''" "s \<noteq> ''false''"
    and sp: "\<not> isspace (hd s)" "\<not> isspace (last s)" and st: "\<not> has_structural s"
    by (auto simp: needs_quoting_def split: if_splits)
  obtain c cs where cs: "s = c # cs" using ne by (cases s) auto
  have hd: "c \<noteq> CHR 0x22" "c \<noteq> CHR ''-''" "\<not> isdigit c" "\<not> isspace c" "c \<noteq> CHR ''[''"
    using u False cs sp not_structural_chars [OF st, of c]
    by (auto simp: unambiguous_string_def)
  have len: "length s \<le> 4095" using u False by (simp add: unambiguous_string_def)
  have "parse_unquoted_string (s @ rest) [CHR '','', CHR 0x0A, CHR 0x0D, CHR '':'']
          = (trim_right (take 4095 s), rest)"
    using assms(2) not_structural_chars [OF st]
    by (intro parse_unquoted_string_exact) auto
  moreover have "trim_right (take 4095 s) = s"
    using len sp by (simp add: trim_right_id)
  ultimately have "parse_unquoted_string (c # cs @ rest) [CHR '','', CHR 0x0A, CHR 0x0D, CHR '':'']
          = (c # cs, rest)"
    using cs by simp
  then have "parse_value (Suc f) (c # cs @ rest) = Inr (keyword_value (c # cs), rest)"
    using hd by (rule parse_value_unquoted)
  moreover have "keyword_value (c # cs) = TOON_STRING (c # cs)"
    using kw cs keyword_value_string [of s] by simp
  ultimately show ?thesis using False cs by simp
qed

lemma parse_value_scalar:
  assumes "round_trip_scalar v" and "rest = [] \<or> hd rest = CHR '','' \<or> hd rest = CHR 0x0A"
  shows "parse_value (Suc f) (scalar_text v @ rest) = Inr (v, rest)"
proof (cases v)
  case TOON_NULL
  then show ?thesis using parse_value_null_text [OF assms(2), of f] by simp
next
  case (TOON_BOOLEAN b)
  then show ?thesis
    using parse_value_true_text [OF assms(2), of f] parse_value_false_text [OF assms(2), of f]
    by (cases b) simp_all
next
  case (TOON_NUMBER num)
  let ?i = "\<lfloor>num\<rfloor>"
  have r: "of_int ?i = num" "- (2 ^ 63) \<le> ?i" "?i < 2 ^ 63"
    using assms(1) TOON_NUMBER by (simp_all add: round_trip_scalar_def)
  have "scalar_text v = show_int ?i"
    using TOON_NUMBER r by (simp add: format_number_integer)
  then show ?thesis
    using parse_value_number_text [OF r(2) r(3) assms(2), of f] r(1) TOON_NUMBER by simp
next
  case (TOON_STRING s)
  then have u: "unambiguous_string s" using assms(1) by (simp add: round_trip_scalar_def)
  show ?thesis
    using parse_value_string_text [OF u assms(2), of f] TOON_STRING by simp
qed (use assms(1) in \<open>simp_all add: round_trip_scalar_def\<close>)

lemma no_colon_not_object: "CHR '':'' \<notin> set p \<Longrightarrow> \<not> looks_like_object prev p"
  by (induction p arbitrary: prev) auto

lemma escape_chars_set:
  "c \<in> set (escape_chars s) \<Longrightarrow>
     c \<in> set s \<or> c = CHR 0x5C \<or> c = CHR 0x22 \<or> c = CHR ''n'' \<or> c = CHR ''r'' \<or> c = CHR ''t''"
  by (induction s) (auto split: if_splits)

lemma show_int_set: "c \<in> set (show_int i) \<Longrightarrow> isdigit c \<or> c = CHR ''-''"
  using show_nat_digits by (auto simp: show_int_def split: if_splits)

lemma encode_scalar_no_colon:
  assumes "round_trip_scalar v"
  shows "CHR '':'' \<notin> set (scalar_text v)"
proof (cases v)
  case (TOON_NUMBER num)
  have "scalar_text v = show_int \<lfloor>num\<rfloor>"
    using assms TOON_NUMBER by (simp add: round_trip_scalar_def format_number_integer)
  moreover have "CHR '':'' \<notin> set (show_int \<lfloor>num\<rfloor>)"
    using show_int_set [of "CHR '':''" "\<lfloor>num\<rfloor>"] by (auto simp: isdigit_def)
  ultimately show ?thesis by simp
next
  case (TOON_STRING s)
  then have u: "CHR '':'' \<notin> set s"
    using assms by (simp add: round_trip_scalar_def unambiguous_string_def)
  then have "CHR '':'' \<notin> set (escape_chars s)"
    using escape_chars_set [of "CHR '':''" s] by auto
  then show ?thesis using TOON_STRING u by (simp add: escape_string_def)
qed (use assms in \<open>auto simp: round_trip_scalar_def\<close>)

lemma encode_scalar_head:
  assumes "round_trip_scalar v"
  shows "scalar_text v \<noteq> [] \<and> \<not> isspace (hd (scalar_text v))"
proof (cases v)
  case (TOON_NUMBER num)
  have e: "scalar_text v = show_int \<lfloor>num\<rfloor>"
    using assms TOON_NUMBER by (simp add: round_trip_scalar_def format_number_integer)
  have "\<not> isspace (hd (show_int \<lfloor>num\<rfloor>))"
    using hd_show_int [of "\<lfloor>num\<rfloor>"] by (auto simp: isdigit_def isspace_def)
  then show ?thesis using e show_int_nonempty by simp
next
  case (TOON_STRING s)
  show ?thesis
  proof (cases "needs_quoting s")
    case True
    then show ?thesis using TOON_STRING by (simp add: escape_string_def isspace_def)
  next
    case False
    then have "s \<noteq> []" "\<not> isspace (hd s)"
      by (auto simp: needs_quoting_def split: if_splits)
    then show ?thesis using TOON_STRING False by simp
  qed
qed (use assms in \<open>auto simp: round_trip_scalar_def isspace_def\<close>)

lemma toon_encode_scalar: "round_trip_scalar v \<Longrightarrow> toon_encode stale v 0 = scalar_text v"
  using encode_scalar_flags [of v stale 0 False] by (simp add: toon_encode_def)

lemma round_trip_scalar_decode:
  assumes "round_trip_scalar v"
  shows "toon_decode (toon_encode stale v 0) = Inr v"
proof -
  let ?t = "scalar_text v"
  have sk: "skip_whitespace ?t = ?t"
    using encode_scalar_head [OF assms] by (intro skip_whitespace_nonspace) simp
  have nl: "\<not> looks_like_object (CHR '' '') ?t"
    using encode_scalar_no_colon [OF assms] by (rule no_colon_not_object)
  have "parse_value (Suc (length ?t)) (?t @ []) = Inr (v, [])"
    using assms by (intro parse_value_scalar) simp_all
  then show ?thesis
    using sk nl assms
    by (simp add: toon_decode_def toon_encode_scalar Let_def del: parse_value.simps)
qed

lemma scalars_not_composite: "list_all round_trip_scalar vs \<Longrightarrow> \<not> list_ex is_composite vs"
proof (induction vs)
  case Nil
  show ?case by simp
next
  case (Cons v vs)
  then show ?case by (cases v) (simp_all add: round_trip_scalar_def is_composite_def)
qed

lemma comma_join_Cons:
  "comma_join (x # xs) = x @ (if xs = [] then [] else CHR '','' # comma_join xs)"
  by (cases xs) simp_all

lemma comma_join_no_colon:
  "list_all round_trip_scalar vs \<Longrightarrow>
     CHR '':'' \<notin> set (comma_join (map scalar_text vs))"
proof (induction vs)
  case Nil
  show ?case by simp
next
  case (Cons v vs)
  then show ?case
    using encode_scalar_no_colon [of v] by (simp add: comma_join_Cons)
qed

lemma comma_join_head:
  "list_all round_trip_scalar vs \<Longrightarrow>
     comma_join (map scalar_text vs) = []
     \<or> \<not> isspace (hd (comma_join (map scalar_text vs)))"
proof (cases vs)
  case Nil
  then show ?thesis by simp
next
  case (Cons v vs')
  assume "list_all round_trip_scalar vs"
  then have "round_trip_scalar v" using Cons by simp
  then show ?thesis
    using encode_scalar_head [of v] Cons by (simp add: comma_join_Cons)
qed

lemma array_text_not_object:
  "CHR '':'' \<notin> set xs \<Longrightarrow> CHR '':'' \<notin> set ys \<Longrightarrow>
     \<not> looks_like_object prev (xs @ CHR '']'' # CHR '':'' # ys)"
proof (induction xs arbitrary: prev)
  case Nil
  then show ?case using no_colon_not_object [of ys "CHR '':''"] by simp
next
  case (Cons x xs)
  then show ?case by auto
qed

lemma show_nat_no_colon: "CHR '':'' \<notin> set (show_nat n)"
  using show_nat_digits [of "CHR '':''" n] by (auto simp: isdigit_def)

lemma enumerate_map_scalar:
  "list_all round_trip_scalar vs \<Longrightarrow>
     map (\<lambda>(i, e). encode_value (child_stale stale i) e 0 True) (enumerate n vs)
       = map scalar_text vs"
  by (induction vs arbitrary: n) (simp_all add: encode_scalar_flags)

lemma encode_flat_array:
  "list_all round_trip_scalar vs \<Longrightarrow> encode_value stale (TOON_ARRAY vs) i m = array_text vs"
  using scalars_not_composite [of vs] by (simp add: array_text_def enumerate_map_scalar)

lemma parse_elements_tail:
  "list_all round_trip_scalar vs \<Longrightarrow> vs \<noteq> [] \<Longrightarrow> tail = [] \<or> hd tail = CHR 0x0A \<Longrightarrow>
     parse_elements (Suc f) (length vs) (comma_join (map scalar_text vs) @ tail)
       = Inr (vs, skip_whitespace tail)"
proof (induction vs)
  case Nil
  then show ?case by simp
next
  case (Cons v vs)
  let ?enc = "\<lambda>e. scalar_text e"
  let ?body = "comma_join (map ?enc vs) @ tail"
  let ?rest = "if vs = [] then tail else CHR '','' # ?body"
  let ?next = "if vs = [] then skip_whitespace tail else ?body"
  have v: "round_trip_scalar v" and vs: "list_all round_trip_scalar vs"
    using Cons.prems by simp_all
  have enc_text: "comma_join (map ?enc (v # vs)) @ tail = ?enc v @ ?rest"
    by (simp add: comma_join_Cons)
  have sk: "skip_whitespace (?enc v @ ?rest) = ?enc v @ ?rest"
    using encode_scalar_head [OF v] by (intro skip_whitespace_nonspace) simp
  have pv: "parse_value (Suc f) (?enc v @ ?rest) = Inr (v, ?rest)"
    using v Cons.prems(3) by (intro parse_value_scalar) auto
  have next_p: "(if length vs > 0 \<and> peek (skip_whitespace ?rest) = CHR '',''
                 then advance (skip_whitespace ?rest) else skip_whitespace ?rest) = ?next"
    by (cases vs) (simp_all add: peek_def advance_def skip_whitespace_Cons isspace_def)
  have step: "parse_elements (Suc f) (Suc (length vs)) (?enc v @ ?rest) =
          (case parse_elements (Suc f) (length vs) ?next of
             Inl e \<Rightarrow> Inl e
           | Inr (ws, r) \<Rightarrow> Inr (v # ws, r))"
    apply (subst parse_elements.simps)
    apply (simp only: sk pv sum.case prod.case Let_def next_p)
    done
  show ?case
  proof (cases "vs = []")
    case True
    then show ?thesis using step enc_text by (simp del: parse_value.simps)
  next
    case False
    then have "parse_elements (Suc f) (length vs) ?body = Inr (vs, skip_whitespace tail)"
      using vs Cons.prems(3) by (intro Cons.IH)
    then show ?thesis using step enc_text False by (simp del: parse_value.simps)
  qed
qed

lemma parse_value_array_text:
  assumes vs: "list_all round_trip_scalar vs" and len: "length vs < 2 ^ 31"
    and tail: "tail = [] \<or> hd tail = CHR 0x0A"
  shows "parse_value (Suc (Suc f)) (array_text vs @ tail) = Inr (TOON_ARRAY vs, skip_whitespace tail)"
proof -
  let ?enc = "\<lambda>e. scalar_text e"
  let ?n = "length vs"
  let ?body = "comma_join (map ?enc vs) @ tail"
  let ?t = "CHR ''['' # show_nat ?n @ CHR '']'' # CHR '':'' # CHR '' '' # ?body"
  have t: "array_text vs @ tail = ?t" by (simp add: array_text_def)
  have digits: "\<forall>c \<in> set (show_nat ?n). c \<noteq> CHR 0x00 \<and> \<not> \<not> isdigit c"
    using show_nat_digits show_nat_no_nul by auto
  have "?n < 10 ^ 31" using len by (rule less_trans) simp
  then have l31: "length (show_nat ?n) \<le> 31" by (intro show_nat_length) simp_all
  have scan: "scan_segment (\<lambda>c. \<not> isdigit c) 31 (show_nat ?n @ CHR '']'' # CHR '':'' # CHR '' '' # ?body)
                = (show_nat ?n, CHR '']'' # CHR '':'' # CHR '' '' # ?body)"
    using digits l31 by (intro scan_segment_exact) (simp_all add: isdigit_def)
  have count: "alloc_count (show_nat ?n) = Inr ?n"
    using atoi_show_nat [of "[]" ?n] len by (simp add: alloc_count_def peek_def isdigit_def)
  have el: "parse_elements (Suc f) ?n (skip_whitespace (CHR '' '' # ?body)) = Inr (vs, skip_whitespace tail)"
  proof (cases "vs = []")
    case True
    then show ?thesis by (simp add: skip_whitespace_Cons isspace_def)
  next
    case False
    have "comma_join (map ?enc vs) \<noteq> [] \<and> \<not> isspace (hd (comma_join (map ?enc vs)))"
      using comma_join_head [OF vs] False vs encode_scalar_head
      by (cases vs) (auto simp: comma_join_Cons)
    then have "skip_whitespace (CHR '' '' # ?body) = ?body"
      using skip_whitespace_nonspace [of ?body]
      by (simp add: skip_whitespace_Cons isspace_def)
    then show ?thesis using parse_elements_tail [OF vs False tail, of f] by simp
  qed
  have arr: "parse_simple_array (Suc f) ?t = Inr (TOON_ARRAY vs, skip_whitespace tail)"
    by (simp add: expect_Cons scan count el Let_def del: parse_elements.simps)
  have "dropWhile isdigit (show_nat ?n @ CHR '']'' # CHR '':'' # CHR '' '' # ?body)
          = dropWhile isdigit (CHR '']'' # CHR '':'' # CHR '' '' # ?body)"
    using show_nat_digits by (intro dropWhile_append2) blast
  then have ta: "\<not> tabular_ahead ?t"
    by (simp add: tabular_ahead_def peek_def isdigit_def)
  have "parse_value (Suc (Suc f)) ?t = parse_simple_array (Suc f) ?t"
    using ta
    by (simp add: skip_whitespace_Cons isspace_def peek_def isdigit_def Let_def
          del: parse_simple_array.simps)
  then show ?thesis using arr t by (simp del: parse_value.simps parse_simple_array.simps)
qed

lemma array_text_no_colon_line:
  "list_all round_trip_scalar vs \<Longrightarrow> \<not> looks_like_object (CHR '' '') (array_text vs)"
  using array_text_not_object [of "CHR ''['' # show_nat (length vs)"
          "CHR '' '' # comma_join (map scalar_text vs)" "CHR '' ''"]
        show_nat_no_colon [of "length vs"] comma_join_no_colon [of vs]
  by (simp add: array_text_def)

lemma round_trip_array_decode:
  assumes vs: "list_all round_trip_scalar vs" and len: "length vs < 2 ^ 31"
  shows "toon_decode (toon_encode stale (TOON_ARRAY vs) 0) = Inr (TOON_ARRAY vs)"
proof -
  let ?t = "array_text vs"
  have enc_text: "toon_encode stale (TOON_ARRAY vs) 0 = ?t"
    using encode_flat_array [OF vs, of stale 0 False] by (simp only: toon_encode_def)
  have sk: "skip_whitespace ?t = ?t"
    by (simp add: array_text_def skip_whitespace_def isspace_def)
  have nl: "\<not> looks_like_object (CHR '' '') ?t"
    using vs by (rule array_text_no_colon_line)
  obtain f where f: "length ?t = Suc f" by (simp add: array_text_def)
  have "parse_value (Suc (Suc f)) (?t @ []) = Inr (TOON_ARRAY vs, skip_whitespace [])"
    using vs len by (rule parse_value_array_text) simp
  then have pv: "parse_value (Suc (length ?t)) ?t = Inr (TOON_ARRAY vs, [])"
    using f by (simp add: skip_whitespace_Nil del: parse_value.simps)
  have "toon_decode ?t = Inr (TOON_ARRAY vs)"
    by (simp only: toon_decode_def sk nl pv Let_def if_False sum.case prod.case)
  then show ?thesis by (simp only: enc_text)
qed

text \<open>
  The text of an object is not terminated: after the last line come the stale bytes of
  the buffer. With the bytes \<open>b: 2\<close> left there, the object with the one entry \<open>a\<close> is read
  back with two entries.
\<close>

lemma encode_object_unterminated:
  "toon_encode stale (TOON_OBJECT [(''a'', TOON_NUMBER 1)]) 0
     = ''a: 1'' @ [CHR 0x0A] @ stale_tail stale"
  by (simp add: toon_encode_def make_indent_def) code_simp

lemma decode_object_with_stale_bytes:
  "toon_decode (toon_encode (\<lambda>loc. ''b: 2'') (TOON_OBJECT [(''a'', TOON_NUMBER 1)]) 0)
     = Inr (TOON_OBJECT [(''a'', TOON_NUMBER 1), (''b'', TOON_NUMBER 2)])"
  by code_simp

text \<open>
  Claim C1, as stated: for every value tree without quoting-ambiguous strings,
  \<open>toon_decode (toon_encode v 0)\<close> succeeds and gives \<open>v\<close> back. This fails on nested containers,
  also on a heap of zero bytes: \<open>encode_array\<close> writes a composite element as a list item
  \<open>- \<dots>\<close> on a line of its own, and the decoder has no reader for list items. The array
  holding one empty array is written \<open>[1]:\<close>, newline, \<open>  - [0]: \<close>, newline;
  \<open>parse_simple_array\<close> reads one element, \<open>parse_value\<close> sees the \<open>-\<close> and calls
  \<open>parse_number\<close>, which collects \<open>-\<close> alone, and \<open>strtod\<close> of that is 0: the result is the
  array holding the number 0. An object inside an object is written on the line of its key,
  \<open>a: c: 1\<close>, and \<open>parse_object\<close> reads the entry \<open>a\<close> with the string \<open>c\<close> and then an entry
  with the empty key.
\<close>

theorem round_trip_nested_array_counterexample:
  "toon_encode zero_heap (TOON_ARRAY [TOON_ARRAY []]) 0
     = [CHR ''['', CHR ''1'', CHR '']'', CHR '':'', CHR 0x0A,
        CHR '' '', CHR '' '', CHR ''-'', CHR '' '',
        CHR ''['', CHR ''0'', CHR '']'', CHR '':'', CHR '' '', CHR 0x0A]
   \<and> toon_decode (toon_encode zero_heap (TOON_ARRAY [TOON_ARRAY []]) 0)
       = Inr (TOON_ARRAY [TOON_NUMBER 0])
   \<and> toon_decode (toon_encode zero_heap (TOON_ARRAY [TOON_ARRAY []]) 0)
       \<noteq> Inr (TOON_ARRAY [TOON_ARRAY []])
   \<and> toon_decode (toon_encode zero_heap (TOON_OBJECT [(''a'', TOON_OBJECT [(''c'', TOON_NUMBER 1)])]) 0)
       = Inr (TOON_OBJECT [(''a'', TOON_STRING ''c''), ([], TOON_NUMBER 1)])"
  by code_simp

text \<open>
  Claim C1, amended: the round trip holds for the flat values, whatever bytes the buffers
  held before. For every value \<open>v\<close> that is Null, a Boolean, an integral Number in the range of
  \<open>long\<close>, an unambiguous String, or an array of fewer than \<open>2 ^ 31\<close> such scalars, and whose
  text fits the 65536-byte buffer of the encoder, \<open>toon_decode (toon_encode v 0)\<close> succeeds
  with \<open>v\<close>. Objects and tabular arrays are left out: their text is not terminated.
\<close>

theorem round_trip_flat:
  "round_trip_flat_value v \<and> length (toon_encode stale v 0) < 65536
     \<longrightarrow> toon_decode (toon_encode stale v 0) = Inr v"
proof (cases v)
  case (TOON_ARRAY vs)
  then show ?thesis
    using round_trip_array_decode [of vs stale]
    by (simp add: round_trip_flat_value_def)
qed (use round_trip_scalar_decode [of v stale] in
      \<open>simp_all add: round_trip_flat_value_def\<close>)

theorem round_trip_flat_witness:
  "round_trip_flat_value (TOON_ARRAY [TOON_NUMBER (- 7), TOON_STRING ''42'', TOON_NULL, TOON_BOOLEAN True])
   \<and> length (toon_encode zero_heap
               (TOON_ARRAY [TOON_NUMBER (- 7), TOON_STRING ''42'', TOON_NULL, TOON_BOOLEAN True]) 0) < 65536
   \<and> toon_decode (toon_encode zero_heap
               (TOON_ARRAY [TOON_NUMBER (- 7), TOON_STRING ''42'', TOON_NULL, TOON_BOOLEAN True]) 0)
       = Inr (TOON_ARRAY [TOON_NUMBER (- 7), TOON_STRING ''42'', TOON_NULL, TOON_BOOLEAN True])
   \<and> round_trip_flat_value (TOON_STRING ''hello world'')
   \<and> length (toon_encode zero_heap (TOON_STRING ''hello world'') 0) < 65536
   \<and> toon_decode (toon_encode zero_heap (TOON_STRING ''hello world'') 0)
       = Inr (TOON_STRING ''hello world'')"
proof -
  let ?v = "TOON_ARRAY [TOON_NUMBER (- 7), TOON_STRING ''42'', TOON_NULL, TOON_BOOLEAN True]"
  let ?w = "TOON_STRING ''hello world''"
  have sc: "list_all round_trip_scalar
              [TOON_NUMBER (- 7), TOON_STRING ''42'', TOON_NULL, TOON_BOOLEAN True, ?w]"
    by code_simp
  have a: "round_trip_flat_value ?v" and c: "round_trip_flat_value ?w"
    using sc by (simp_all add: round_trip_flat_value_def)
  have "length (toon_encode zero_heap ?v 0) = 22" by code_simp
  then have b: "length (toon_encode zero_heap ?v 0) < 65536" by simp
  have "length (toon_encode zero_heap ?w 0) = 11" by code_simp
  then have d: "length (toon_encode zero_heap ?w 0) < 65536" by simp
  have e: "toon_decode (toon_encode zero_heap ?v 0) = Inr ?v"
    using a b round_trip_flat [where v = ?v and stale = zero_heap] by blast
  have f: "toon_decode (toon_encode zero_heap ?w 0) = Inr ?w"
    using c d round_trip_flat [where v = ?w and stale = zero_heap] by blast
  show ?thesis using a b c d e f by blast
qed

end
